theory Spec2Isabelle
  imports Complex_Main "HOL-Library.Multiset"
begin

section \<open>JavaScript values used by the embedding module\<close>

text \<open>
  Scores are JavaScript numbers: a finite value, one of the two infinities, or NaN. The
  module only compares scores, so a finite double is modelled by the real number it
  denotes. The comparisons \<open><\<close>, \<open><=\<close>, \<open>>\<close> and \<open>>=\<close> of JavaScript are \<open>js_lt\<close>, \<open>js_le\<close>,
  \<open>js_gt\<close> and \<open>js_ge\<close>: each of them is false as soon as one operand is NaN.
  \<open>Number.MIN_VALUE\<close> is the smallest positive double, \<open>2\<^sup>-\<^sup>1\<^sup>0\<^sup>7\<^sup>4\<close>.
\<close>

datatype number = NaN | NegInf | Fin real | PosInf

fun js_lt :: "number \<Rightarrow> number \<Rightarrow> bool" where
  "js_lt NaN b = False"
| "js_lt a NaN = False"
| "js_lt NegInf NegInf = False"
| "js_lt NegInf b = True"
| "js_lt (Fin x) (Fin y) = (x < y)"
| "js_lt (Fin x) PosInf = True"
| "js_lt (Fin x) NegInf = False"
| "js_lt PosInf b = False"

fun js_le :: "number \<Rightarrow> number \<Rightarrow> bool" where
  "js_le NaN b = False"
| "js_le a NaN = False"
| "js_le NegInf b = True"
| "js_le (Fin x) (Fin y) = (x \<le> y)"
| "js_le (Fin x) PosInf = True"
| "js_le (Fin x) NegInf = False"
| "js_le PosInf PosInf = True"
| "js_le PosInf b = False"

definition js_gt :: "number \<Rightarrow> number \<Rightarrow> bool" where
  "js_gt a b = js_lt b a"

definition js_ge :: "number \<Rightarrow> number \<Rightarrow> bool" where
  "js_ge a b = js_le b a"

text \<open>
  For the proofs, the numbers carry a linear order that agrees with the comparisons of
  JavaScript on the numbers other than NaN, and puts NaN below all of them. The program
  is modelled with \<open>js_lt\<close>, \<open>js_le\<close>, \<open>js_gt\<close> and \<open>js_ge\<close> only.
\<close>

instantiation number :: linorder
begin

definition less_eq_number :: "number \<Rightarrow> number \<Rightarrow> bool" where
  "less_eq_number a b = (a = NaN \<or> js_le a b)"

definition less_number :: "number \<Rightarrow> number \<Rightarrow> bool" where
  "less_number a b = (b \<noteq> NaN \<and> (a = NaN \<or> js_lt a b))"

instance
proof
  fix x y z :: number
  show "(x < y) = (x \<le> y \<and> \<not> y \<le> x)"
    by (cases x; cases y) (auto simp: less_eq_number_def less_number_def)
  show "x \<le> x"
    by (cases x) (auto simp: less_eq_number_def)
  show "x \<le> y \<Longrightarrow> y \<le> z \<Longrightarrow> x \<le> z"
    by (cases x; cases y; cases z) (auto simp: less_eq_number_def)
  show "x \<le> y \<Longrightarrow> y \<le> x \<Longrightarrow> x = y"
    by (cases x; cases y) (auto simp: less_eq_number_def)
  show "x \<le> y \<or> y \<le> x"
    by (cases x; cases y) (auto simp: less_eq_number_def)
qed

end

definition MIN_VALUE :: number where
  "MIN_VALUE = Fin (1 / 2 ^ 1074)"

datatype error = ArgumentException | TypeError

text \<open>
  A JavaScript array is a list of cells, \<open>None\<close> being \<open>undefined\<close>. Reading past the end
  gives \<open>undefined\<close>; writing past the end extends the array with holes; \<open>push\<close> appends;
  assigning \<open>length\<close> truncates (or pads with holes).
\<close>

definition arr_get :: "'b option list \<Rightarrow> nat \<Rightarrow> 'b option" where
  "arr_get xs i = (if i < length xs then xs ! i else None)"

definition arr_set :: "'b option list \<Rightarrow> nat \<Rightarrow> 'b option \<Rightarrow> 'b option list" where
  "arr_set xs i v =
     (if i < length xs then xs[i := v] else xs @ replicate (i - length xs) None @ [v])"

definition arr_push :: "'b option list \<Rightarrow> 'b option \<Rightarrow> 'b option list" where
  "arr_push xs v = xs @ [v]"

definition arr_set_length :: "'b option list \<Rightarrow> nat \<Rightarrow> 'b option list" where
  "arr_set_length xs n = take n xs @ replicate (n - length xs) None"

section \<open>Embedding\<close>

text \<open>
  The numeric kernels \<open>euclideanLength32\<close>, \<open>dot32\<close>, \<open>cosineSimilarity32\<close> and
  \<open>normalize32\<close> live in the module \<open>./vectormath\<close>, which is not part of the sources at
  hand. They are a parameter of the model; \<open>normalize32\<close>, which scales its argument in
  place, returns the scaled vector.
\<close>

record 'v vectormath =
  euclideanLength32 :: "'v \<Rightarrow> number"
  dot32 :: "'v \<Rightarrow> 'v \<Rightarrow> number"
  cosineSimilarity32 :: "'v \<Rightarrow> 'v \<Rightarrow> number"
  normalize32 :: "'v \<Rightarrow> 'v"

record 'v Embedding =
  vec :: 'v
  normalized :: bool

definition Embedding_new :: "'v \<Rightarrow> 'v Embedding" where
  "Embedding_new v = \<lparr>vec = v, normalized = False\<rparr>"

definition isNormalized :: "'v Embedding \<Rightarrow> bool" where
  "isNormalized this = normalized this"

definition euclideanLength :: "'v vectormath \<Rightarrow> 'v Embedding \<Rightarrow> number" where
  "euclideanLength vm this =
     (if normalized this then Fin 1 else euclideanLength32 vm (vec this))"

definition dotProduct :: "'v vectormath \<Rightarrow> 'v Embedding \<Rightarrow> 'v Embedding \<Rightarrow> number" where
  "dotProduct vm this other = dot32 vm (vec this) (vec other)"

definition cosineSimilarity :: "'v vectormath \<Rightarrow> 'v Embedding \<Rightarrow> 'v Embedding \<Rightarrow> number" where
  "cosineSimilarity vm this other =
     (if normalized this \<and> normalized other then dot32 vm (vec this) (vec other)
      else cosineSimilarity32 vm (vec this) (vec other))"

definition normalize :: "'v vectormath \<Rightarrow> 'v Embedding \<Rightarrow> 'v Embedding" where
  "normalize vm this =
     (if \<not> normalized this
      then this\<lparr>vec := normalize32 vm (vec this), normalized := True\<rparr>
      else this)"

text \<open>
  Modelled from the spec: the module \<open>./vectormath\<close> is missing; section 4.1 of the
  specification gives its kernels as the square root of the sum of squares, the sum of
  elementwise products, their quotient, and scaling by the inverse length. This instance
  over lists of reals (vectors of finite components, the results being finite numbers) is
  used to evaluate the list operations on concrete vectors.
\<close>

definition spec_dot :: "real list \<Rightarrow> real list \<Rightarrow> real" where
  "spec_dot a b = sum_list (map (\<lambda>(x, y). x * y) (zip a b))"

definition spec_length :: "real list \<Rightarrow> real" where
  "spec_length a = sqrt (spec_dot a a)"

definition spec_vectormath :: "(real list) vectormath" where
  "spec_vectormath =
     \<lparr>euclideanLength32 = (\<lambda>a. Fin (spec_length a)),
      dot32 = (\<lambda>a b. Fin (spec_dot a b)),
      cosineSimilarity32 = (\<lambda>a b. Fin (spec_dot a b / (spec_length a * spec_length b))),
      normalize32 = (\<lambda>a. map (\<lambda>x. x / spec_length a) a)\<rparr>"

section \<open>TopNCollection\<close>

record 'a IScoredValue =
  val :: "'a option"
  score :: number

type_synonym 'a cell = "'a IScoredValue option"

text \<open>
  \<open>tn_items\<close>, \<open>tn_count\<close> and \<open>tn_maxCount\<close> are the fields \<open>_items\<close>, \<open>_count\<close> and
  \<open>_maxCount\<close>. The counters are naturals: \<open>_count\<close> starts at 0 and is decremented only
  behind the emptiness guard of \<open>removeTop\<close>. The objects held by the array are modelled
  as values. \<open>add\<close> at capacity overwrites the two fields of the object it has just removed
  before it stores it back; this amounts to storing a new cell as long as no object sits
  at two positions of the array, which is the case in every state reached from the
  constructor by \<open>add\<close> and \<open>sortDescending\<close> calls that return.
\<close>

record 'a TopNCollection =
  tn_items :: "'a cell list"
  tn_count :: nat
  tn_maxCount :: nat

definition sentinel :: "'a IScoredValue" where
  "sentinel = \<lparr>val = None, score = MIN_VALUE\<rparr>"

definition fresh :: "nat \<Rightarrow> 'a TopNCollection" where
  "fresh maxCount =
     \<lparr>tn_items = arr_push [] (Some sentinel), tn_count = 0, tn_maxCount = maxCount\<rparr>"

text \<open>
  Modelled from the spec: \<open>Validator.greaterThan\<close> comes from the module \<open>./core\<close>, which is
  missing; by section 7 a non-positive capacity is refused with an argument error.
\<close>

definition TopNCollection_new :: "nat \<Rightarrow> error + 'a TopNCollection" where
  "TopNCollection_new maxCount =
     (if maxCount > 0 then Inr (fresh maxCount) else Inl ArgumentException)"

definition get :: "'a TopNCollection \<Rightarrow> nat \<Rightarrow> 'a cell" where
  "get this index = arr_get (tn_items this) (index + 1)"

definition top :: "'a TopNCollection \<Rightarrow> 'a cell" where
  "top this = arr_get (tn_items this) 1"

definition clear :: "'a TopNCollection \<Rightarrow> 'a TopNCollection" where
  "clear this = this\<lparr>tn_items := arr_set_length (tn_items this) 1\<rparr>"

text \<open>
  A method that throws leaves the collection as it was at the throw: a failing call
  returns \<open>Inl\<close> of the error and that state, a successful one \<open>Inr\<close> of its result.

  \<open>upHeap\<close>: the loop carries the array, the item being moved and the position \<open>i\<close>;
  \<open>parent = i >> 1\<close>, which is \<open>i div 2\<close> for the positions of an array. Reading \<open>.score\<close>
  of \<open>undefined\<close> throws a \<open>TypeError\<close>.
\<close>

function upHeap_loop ::
  "'a cell list \<Rightarrow> 'a cell \<Rightarrow> nat \<Rightarrow> (error \<times> 'a cell list) + 'a cell list" where
  "upHeap_loop xs item i =
     (let parent = i div 2 in
      if parent > 0 then
        (case arr_get xs parent of
           None \<Rightarrow> Inl (TypeError, xs)
         | Some p \<Rightarrow>
             (case item of
                None \<Rightarrow> Inl (TypeError, xs)
              | Some it \<Rightarrow>
                  if js_gt (score p) (score it)
                  then upHeap_loop (arr_set xs i (arr_get xs parent)) item parent
                  else Inr (arr_set xs i item)))
      else Inr (arr_set xs i item))"
  by pat_completeness auto
termination
  by (relation "measure (\<lambda>(xs, item, i). i)") auto

definition upHeap ::
  "'a TopNCollection \<Rightarrow> nat \<Rightarrow> (error \<times> 'a TopNCollection) + 'a TopNCollection" where
  "upHeap this startAt =
     (case upHeap_loop (tn_items this) (arr_get (tn_items this) startAt) startAt of
        Inl (e, xs) \<Rightarrow> Inl (e, this\<lparr>tn_items := xs\<rparr>)
      | Inr xs \<Rightarrow> Inr (this\<lparr>tn_items := xs\<rparr>))"

text \<open>
  \<open>downHeap\<close>: one pass of the loop body first selects the smaller child of \<open>i\<close>
  (\<open>iChild\<close> and \<open>childScore\<close>), which only reads the array. The loop does not terminate
  from position 0 in general, so it is a partial function: \<open>None\<close> is a run that never
  returns.
\<close>

definition smallerChild :: "'a cell list \<Rightarrow> nat \<Rightarrow> nat \<Rightarrow> error + (nat \<times> number)" where
  "smallerChild xs cnt i =
     (let iChild = i + i in
      case arr_get xs iChild of
        None \<Rightarrow> Inl TypeError
      | Some c \<Rightarrow>
          if iChild < cnt then
            (case arr_get xs (iChild + 1) of
               None \<Rightarrow> Inl TypeError
             | Some c2 \<Rightarrow>
                 if js_gt (score c) (score c2) then Inr (iChild + 1, score c2)
                 else Inr (iChild, score c))
          else Inr (iChild, score c))"

partial_function (option) downHeap_loop ::
  "'a cell list \<Rightarrow> nat \<Rightarrow> 'a cell \<Rightarrow> nat \<Rightarrow> ((error \<times> 'a cell list) + 'a cell list) option" where
  "downHeap_loop xs cnt item i =
     (if i \<le> cnt div 2 then
        (case smallerChild xs cnt i of
           Inl e \<Rightarrow> Some (Inl (e, xs))
         | Inr (iChild, childScore) \<Rightarrow>
             (case item of
                None \<Rightarrow> Some (Inl (TypeError, xs))
              | Some it \<Rightarrow>
                  if js_le (score it) childScore then Some (Inr (arr_set xs i item))
                  else downHeap_loop (arr_set xs i (arr_get xs iChild)) cnt item iChild))
      else Some (Inr (arr_set xs i item)))"

declare downHeap_loop.simps [code]

definition downHeap ::
  "'a TopNCollection \<Rightarrow> nat \<Rightarrow> ((error \<times> 'a TopNCollection) + 'a TopNCollection) option" where
  "downHeap this startAt =
     (case downHeap_loop (tn_items this) (tn_count this)
             (arr_get (tn_items this) startAt) startAt of
        None \<Rightarrow> None
      | Some (Inl (e, xs)) \<Rightarrow> Some (Inl (e, this\<lparr>tn_items := xs\<rparr>))
      | Some (Inr xs) \<Rightarrow> Some (Inr (this\<lparr>tn_items := xs\<rparr>)))"

definition removeTop ::
  "'a TopNCollection \<Rightarrow>
     ((error \<times> 'a TopNCollection) + ('a cell \<times> 'a TopNCollection)) option" where
  "removeTop this =
     (if tn_count this = 0 then Some (Inl (ArgumentException, this))
      else
        let item = arr_get (tn_items this) 1;
            s1 = this\<lparr>tn_items := arr_set (tn_items this) 1
                                   (arr_get (tn_items this) (tn_count this))\<rparr>;
            s2 = s1\<lparr>tn_count := tn_count s1 - 1\<rparr>
        in case downHeap s2 1 of
             None \<Rightarrow> None
           | Some (Inl e) \<Rightarrow> Some (Inl e)
           | Some (Inr s3) \<Rightarrow> Some (Inr (item, s3)))"

text \<open>
  \<open>add\<close>: at capacity the removed object is overwritten with the new value and score and
  stored at position \<open>count\<close>; writing a field of \<open>undefined\<close> throws a \<open>TypeError\<close>.
\<close>

definition add ::
  "'a \<Rightarrow> number \<Rightarrow> 'a TopNCollection \<Rightarrow>
     ((error \<times> 'a TopNCollection) + 'a TopNCollection) option" where
  "add v sc this =
     (if tn_count this = tn_maxCount this then
        (case top this of
           None \<Rightarrow> Some (Inl (TypeError, this))
         | Some t \<Rightarrow>
             if js_lt sc (score t) then Some (Inr this)
             else
               (case removeTop this of
                  None \<Rightarrow> None
                | Some (Inl e) \<Rightarrow> Some (Inl e)
                | Some (Inr (scoredValue, s1)) \<Rightarrow>
                    (case scoredValue of
                       None \<Rightarrow> Some (Inl (TypeError, s1))
                     | Some sv \<Rightarrow>
                         let sv' = sv\<lparr>val := Some v, score := sc\<rparr>;
                             s2 = s1\<lparr>tn_count := tn_count s1 + 1\<rparr>;
                             s3 = s2\<lparr>tn_items := arr_set (tn_items s2) (tn_count s2) (Some sv')\<rparr>
                         in Some (upHeap s3 (tn_count s3)))))
      else
        let s1 = this\<lparr>tn_count := tn_count this + 1\<rparr>;
            s2 = s1\<lparr>tn_items := arr_push (tn_items s1) (Some \<lparr>val = Some v, score = sc\<rparr>)\<rparr>
        in Some (upHeap s2 (tn_count s2)))"

text \<open>
  \<open>sortDescending\<close>: the loop runs while \<open>_count > 0\<close>; \<open>i\<close> starts at the saved count
  and is decremented once per removal, so it equals \<open>_count\<close> at the head of the loop.
\<close>

partial_function (option) sortDescending_loop ::
  "'a TopNCollection \<Rightarrow> nat \<Rightarrow> ((error \<times> 'a TopNCollection) + 'a TopNCollection) option" where
  "sortDescending_loop this i =
     (if tn_count this > 0 then
        (case removeTop this of
           None \<Rightarrow> None
         | Some (Inl e) \<Rightarrow> Some (Inl e)
         | Some (Inr (item, s1)) \<Rightarrow>
             sortDescending_loop (s1\<lparr>tn_items := arr_set (tn_items s1) i item\<rparr>) (i - 1))
      else Some (Inr this))"

declare sortDescending_loop.simps [code]

definition sortDescending ::
  "'a TopNCollection \<Rightarrow> ((error \<times> 'a TopNCollection) + 'a TopNCollection) option" where
  "sortDescending this =
     (let cnt = tn_count this in
      case sortDescending_loop this cnt of
        None \<Rightarrow> None
      | Some (Inl e) \<Rightarrow> Some (Inl e)
      | Some (Inr s1) \<Rightarrow> Some (Inr (s1\<lparr>tn_count := cnt\<rparr>)))"

text \<open>A sequence of \<open>add\<close> calls, stopping at the first that throws.\<close>

fun adds ::
  "('a \<times> number) list \<Rightarrow> 'a TopNCollection \<Rightarrow>
     ((error \<times> 'a TopNCollection) + 'a TopNCollection) option" where
  "adds [] this = Some (Inr this)"
| "adds (c # cs) this =
     (case add (fst c) (snd c) this of
        None \<Rightarrow> None
      | Some (Inl e) \<Rightarrow> Some (Inl e)
      | Some (Inr s1) \<Rightarrow> adds cs s1)"

section \<open>VectorizedList\<close>

record ('a, 'v) VectorizedList =
  vl_items :: "'a list"
  vl_embeddings :: "'v Embedding list"

definition VectorizedList_new :: "('a, 'v) VectorizedList" where
  "VectorizedList_new = \<lparr>vl_items = [], vl_embeddings = []\<rparr>"

text \<open>
  \<open>add\<close> of \<open>VectorizedList\<close>. The check \<open>Validator.exists(embedding)\<close> (module \<open>./core\<close>)
  guards against an absent embedding; in the model the embedding is always present. The
  caller's embedding is normalized in place; the list stores its normalized value.
\<close>

definition vl_add ::
  "'v vectormath \<Rightarrow> 'a \<Rightarrow> 'v Embedding \<Rightarrow> ('a, 'v) VectorizedList \<Rightarrow> ('a, 'v) VectorizedList" where
  "vl_add vm item embedding this =
     this\<lparr>vl_items := vl_items this @ [item],
          vl_embeddings := vl_embeddings this @ [normalize vm embedding]\<rparr>"

text \<open>Reading \<open>_items[k]\<close> for a number \<open>k\<close>: \<open>undefined\<close> (\<open>None\<close>) outside the array.\<close>

definition item_at :: "'a list \<Rightarrow> int \<Rightarrow> 'a option" where
  "item_at xs k = (if 0 \<le> k \<and> nat k < length xs then Some (xs ! nat k) else None)"

function nearest_loop ::
  "'v vectormath \<Rightarrow> 'v Embedding list \<Rightarrow> 'v Embedding \<Rightarrow> number \<Rightarrow> int \<Rightarrow> nat \<Rightarrow>
     number \<times> int" where
  "nearest_loop vm embs other bestScore iNearest i =
     (if i < length embs then
        (let sc = cosineSimilarity vm (embs ! i) other in
         if js_ge sc bestScore then nearest_loop vm embs other sc (int i) (i + 1)
         else nearest_loop vm embs other bestScore iNearest (i + 1))
      else (bestScore, iNearest))"
  by pat_completeness auto
termination
  by (relation "measure (\<lambda>(vm, embs, other, bestScore, iNearest, i). length embs - i)") auto

definition nearest ::
  "'v vectormath \<Rightarrow> ('a, 'v) VectorizedList \<Rightarrow> 'v Embedding \<Rightarrow> 'a option" where
  "nearest vm this other =
     item_at (vl_items this)
       (snd (nearest_loop vm (vl_embeddings this) other MIN_VALUE (- 1) 0))"

function search_loop ::
  "'v vectormath \<Rightarrow> ('a, 'v) VectorizedList \<Rightarrow> 'v Embedding \<Rightarrow> number \<Rightarrow>
     'a option TopNCollection \<Rightarrow> nat \<Rightarrow>
     ((error \<times> 'a option TopNCollection) + 'a option TopNCollection) option" where
  "search_loop vm this other minScore matches i =
     (if i < length (vl_embeddings this) then
        (let sc = cosineSimilarity vm (vl_embeddings this ! i) other in
         if js_ge sc minScore then
           (case add (item_at (vl_items this) (int i)) sc matches of
              None \<Rightarrow> None
            | Some (Inl e) \<Rightarrow> Some (Inl e)
            | Some (Inr m1) \<Rightarrow> search_loop vm this other minScore m1 (i + 1))
         else search_loop vm this other minScore matches (i + 1))
      else Some (Inr matches))"
  by pat_completeness auto
termination
  by (relation "measure (\<lambda>(vm, this, other, minScore, matches, i).
                  length (vl_embeddings this) - i)") auto

definition search ::
  "'v vectormath \<Rightarrow> ('a, 'v) VectorizedList \<Rightarrow> 'v Embedding \<Rightarrow> 'a option TopNCollection \<Rightarrow>
     number \<Rightarrow> ((error \<times> 'a option TopNCollection) + 'a option TopNCollection) option" where
  "search vm this other matches minScore = search_loop vm this other minScore matches 0"

definition searchTopN ::
  "'v vectormath \<Rightarrow> ('a, 'v) VectorizedList \<Rightarrow> 'v Embedding \<Rightarrow> nat \<Rightarrow> number \<Rightarrow>
     (error + ((error \<times> 'a option TopNCollection) + 'a option TopNCollection)) option" where
  "searchTopN vm this other topNCount minScore =
     (case TopNCollection_new topNCount of
        Inl e \<Rightarrow> Some (Inl e)
      | Inr matches \<Rightarrow> map_option Inr (search vm this other matches minScore))"

text \<open>The default value of the parameter \<open>minScore\<close> of \<open>search\<close> and \<open>searchTopN\<close>.\<close>

definition default_minScore :: number where
  "default_minScore = MIN_VALUE"

text \<open>The list holding the single item \<open>x\<close> with the embedding \<open>(1, 0, 0)\<close>.\<close>

definition list_x :: "(string, real list) VectorizedList" where
  "list_x = vl_add spec_vectormath ''x'' (Embedding_new [1, 0, 0]) VectorizedList_new"

section \<open>Notions used to state and prove the properties\<close>

text \<open>
  The score held by a cell, and the score at a position of the array. A candidate
  \<open>(value, score)\<close> passed to \<open>add\<close> is stored as the cell \<open>cellOf (value, score)\<close>.
\<close>

definition cscore :: "'a cell \<Rightarrow> number" where
  "cscore c = (case c of None \<Rightarrow> Fin 0 | Some a \<Rightarrow> score a)"

definition sc :: "'a cell list \<Rightarrow> nat \<Rightarrow> number" where
  "sc xs j = cscore (xs ! j)"

definition cellOf :: "'a \<times> number \<Rightarrow> 'a cell" where
  "cellOf c = Some \<lparr>val = Some (fst c), score = snd c\<rparr>"

text \<open>The occupied positions \<open>1 .. count\<close> of the array, as a multiset of cells.\<close>

definition occupancy :: "'a TopNCollection \<Rightarrow> 'a cell multiset" where
  "occupancy this = mset (take (tn_count this) (tl (tn_items this)))"

text \<open>
  The heap property as the specification words it: the score at an occupied position is
  at most the scores at its children, where these are occupied; \<open>cell_le a b\<close> is the
  comparison \<open>a.score <= b.score\<close> of two objects.
\<close>

definition cell_le :: "'a cell \<Rightarrow> 'a cell \<Rightarrow> bool" where
  "cell_le a b =
     (case a of None \<Rightarrow> False
      | Some p \<Rightarrow> (case b of None \<Rightarrow> False | Some c \<Rightarrow> js_le (score p) (score c)))"

definition heapProperty :: "'a TopNCollection \<Rightarrow> bool" where
  "heapProperty this =
     (\<forall>i \<in> {1 .. tn_count this}.
        (2 * i \<le> tn_count this \<longrightarrow>
           cell_le (arr_get (tn_items this) i) (arr_get (tn_items this) (2 * i))) \<and>
        (2 * i + 1 \<le> tn_count this \<longrightarrow>
           cell_le (arr_get (tn_items this) i) (arr_get (tn_items this) (2 * i + 1))))"

text \<open>
  The order that \<open>sortDescending\<close> promises, in terms of \<open>get\<close>: for every index \<open>i\<close> with
  \<open>i + 1 < count\<close>, the score of \<open>get(i + 1)\<close> is at most the score of \<open>get(i)\<close>.
\<close>

definition descending :: "'a TopNCollection \<Rightarrow> bool" where
  "descending this =
     (\<forall>i \<in> {0 ..< tn_count this - 1}. cell_le (get this (i + 1)) (get this i))"

text \<open>
  The same property over an array, told from the children in the order of the numbers
  (which is the order of JavaScript where no score is NaN), and its two weakenings that
  hold while \<open>upHeap\<close> and \<open>downHeap\<close> move an item through position \<open>i\<close>: every
  parent and child are in order except the pairs that involve \<open>i\<close> (as child in
  \<open>upInv\<close>, as parent in \<open>downInv\<close>), and the parent of \<open>i\<close> is below the children of \<open>i\<close>.
\<close>

definition heapArr :: "'a cell list \<Rightarrow> nat \<Rightarrow> bool" where
  "heapArr xs n = (\<forall>c. 2 \<le> c \<and> c \<le> n \<longrightarrow> sc xs (c div 2) \<le> sc xs c)"

definition upInv :: "'a cell list \<Rightarrow> nat \<Rightarrow> nat \<Rightarrow> bool" where
  "upInv xs n i =
     ((\<forall>c. 2 \<le> c \<and> c \<le> n \<and> c \<noteq> i \<longrightarrow> sc xs (c div 2) \<le> sc xs c) \<and>
      (\<forall>c. 2 \<le> c \<and> c \<le> n \<and> c div 2 = i \<and> 2 \<le> i \<longrightarrow> sc xs (i div 2) \<le> sc xs c))"

definition downInv :: "'a cell list \<Rightarrow> nat \<Rightarrow> nat \<Rightarrow> bool" where
  "downInv xs n i =
     ((\<forall>c. 2 \<le> c \<and> c \<le> n \<and> c div 2 \<noteq> i \<longrightarrow> sc xs (c div 2) \<le> sc xs c) \<and>
      (\<forall>c. 2 \<le> c \<and> c \<le> n \<and> c div 2 = i \<and> 2 \<le> i \<longrightarrow> sc xs (i div 2) \<le> sc xs c))"

text \<open>The child that \<open>downHeap\<close> compares the moving item with.\<close>

definition minChild :: "'a cell list \<Rightarrow> nat \<Rightarrow> nat \<Rightarrow> nat" where
  "minChild xs cnt i =
     (if 2 * i < cnt \<and> js_gt (sc xs (2 * i)) (sc xs (2 * i + 1)) then 2 * i + 1 else 2 * i)"

text \<open>
  The invariants of a collection between \<open>add\<close> calls. Whatever the scores: the array
  holds the sentinel and \<open>count\<close> objects, and no hole (\<open>structInv\<close>). When no score is
  NaN (\<open>clean\<close>), the array is moreover heap-ordered (\<open>heapInv\<close>).
\<close>

definition clean :: "'a cell list \<Rightarrow> bool" where
  "clean xs = (NaN \<notin> cscore ` set xs)"

definition structInv :: "'a TopNCollection \<Rightarrow> bool" where
  "structInv this =
     (length (tn_items this) = tn_count this + 1 \<and> None \<notin> set (tn_items this))"

definition heapInv :: "'a TopNCollection \<Rightarrow> bool" where
  "heapInv this =
     (structInv this \<and> clean (tn_items this) \<and> heapArr (tn_items this) (tn_count this))"

section \<open>Evaluation of the array primitives\<close>

lemmas arr_defs = arr_get_def arr_set_def arr_push_def arr_set_length_def

declare upHeap_loop.simps [simp del] nearest_loop.simps [simp del] search_loop.simps [simp del]

lemma list_x_eq:
  "list_x = \<lparr>vl_items = [''x''], vl_embeddings = [\<lparr>vec = [1, 0, 0], normalized = True\<rparr>]\<rparr>"
  by (simp add: list_x_def vl_add_def VectorizedList_new_def Embedding_new_def normalize_def
      spec_vectormath_def spec_length_def spec_dot_def)

lemma MIN_VALUE_pos: "js_lt (Fin 0) MIN_VALUE"
  by (simp add: MIN_VALUE_def)

section \<open>Comparisons of numbers other than NaN\<close>

lemma js_lt_iff: "a \<noteq> NaN \<Longrightarrow> b \<noteq> NaN \<Longrightarrow> js_lt a b \<longleftrightarrow> a < b"
  by (simp add: less_number_def)

lemma js_le_iff: "a \<noteq> NaN \<Longrightarrow> b \<noteq> NaN \<Longrightarrow> js_le a b \<longleftrightarrow> a \<le> b"
  by (simp add: less_eq_number_def)

lemma js_gt_iff: "a \<noteq> NaN \<Longrightarrow> b \<noteq> NaN \<Longrightarrow> js_gt a b \<longleftrightarrow> b < a"
  by (simp add: js_gt_def js_lt_iff)

lemma js_ge_iff: "a \<noteq> NaN \<Longrightarrow> b \<noteq> NaN \<Longrightarrow> js_ge a b \<longleftrightarrow> b \<le> a"
  by (simp add: js_ge_def js_le_iff)

lemma js_lt_not_NaN: "js_lt a b \<Longrightarrow> a \<noteq> NaN \<and> b \<noteq> NaN"
  by (cases a; cases b) simp_all

lemma js_le_not_NaN: "js_le a b \<Longrightarrow> a \<noteq> NaN \<and> b \<noteq> NaN"
  by (cases a; cases b) simp_all

section \<open>Sifting up and down\<close>

lemma upHeap_loop_rule:
  fixes it :: "'a IScoredValue"
  assumes full: "None \<notin> set xs" and len: "length xs = n" and i: "i < n"
    and init: "I (xs[i := Some it]) i"
    and step: "\<And>v j. \<lbrakk>I v j; None \<notin> set v; length v = n; j < n; v ! j = Some it;
                 0 < j div 2; js_gt (sc v (j div 2)) (score it)\<rbrakk>
               \<Longrightarrow> I (v[j := v ! (j div 2), j div 2 := Some it]) (j div 2)"
    and final: "\<And>v j. \<lbrakk>I v j; None \<notin> set v; length v = n; j < n; v ! j = Some it;
                 j div 2 = 0 \<or> \<not> js_gt (sc v (j div 2)) (score it)\<rbrakk> \<Longrightarrow> Q v"
  shows "\<exists>ys. upHeap_loop xs (Some it) i = Inr ys \<and> Q ys"
  using full len i init
proof (induction i arbitrary: xs rule: less_induct)
  case (less i)
  let ?v = "xs[i := Some it]"
  let ?p = "i div 2"
  have vfull: "None \<notin> set ?v"
    using less.prems(1) by (auto dest: set_update_subset_insert [THEN subsetD])
  have vlen: "length ?v = n" using less.prems(2) by simp
  have vi: "?v ! i = Some it" using less.prems(2,3) by simp
  show ?case
  proof (cases "0 < ?p")
    case False
    then have "upHeap_loop xs (Some it) i = Inr ?v"
      using less.prems(2,3) by (subst upHeap_loop.simps) (simp add: arr_set_def)
    moreover have "Q ?v"
      using final [OF less.prems(4) vfull vlen less.prems(3) vi] False by simp
    ultimately show ?thesis by simp
  next
    case True
    then have pi: "?p < i" by simp
    with less.prems have pn: "?p < length xs" by simp
    from pn less.prems(1) obtain pv where pv: "xs ! ?p = Some pv"
      by (metis nth_mem not_Some_eq)
    have get: "arr_get xs ?p = Some pv" using pn pv by (simp add: arr_get_def)
    have scp: "sc ?v ?p = score pv" using pi pv by (simp add: sc_def cscore_def)
    show ?thesis
    proof (cases "js_gt (score pv) (score it)")
      case False
      then have "upHeap_loop xs (Some it) i = Inr ?v"
        using less.prems(2,3) True get by (subst upHeap_loop.simps) (simp add: arr_set_def)
      moreover have "Q ?v"
        using final [OF less.prems(4) vfull vlen less.prems(3) vi] False scp by simp
      ultimately show ?thesis by simp
    next
      case lt: True
      let ?xs' = "xs[i := Some pv]"
      have eq: "upHeap_loop xs (Some it) i = upHeap_loop ?xs' (Some it) ?p"
        using less.prems(2,3) True get lt by (subst upHeap_loop.simps) (simp add: arr_set_def)
      have "I (?v[i := ?v ! ?p, ?p := Some it]) ?p"
        using step [OF less.prems(4) vfull vlen less.prems(3) vi True] lt scp by simp
      moreover have "?v[i := ?v ! ?p, ?p := Some it] = ?xs'[?p := Some it]"
        using pi pv by simp
      ultimately have I': "I (?xs'[?p := Some it]) ?p" by simp
      have full': "None \<notin> set ?xs'"
        using less.prems(1) by (auto dest: set_update_subset_insert [THEN subsetD])
      have "\<exists>ys. upHeap_loop ?xs' (Some it) ?p = Inr ys \<and> Q ys"
        using less.IH [OF pi full' _ _ I'] less.prems(2,3) pi by simp
      with eq show ?thesis by simp
    qed
  qed
qed

lemma smallerChild_full:
  assumes "None \<notin> set xs" "cnt < length xs" "i \<le> cnt div 2"
  shows "smallerChild xs cnt i = Inr (minChild xs cnt i, sc xs (minChild xs cnt i))"
proof -
  have l: "i + i < length xs" using assms by linarith
  then obtain c where c: "xs ! (i + i) = Some c"
    using assms(1) by (metis nth_mem not_Some_eq)
  show ?thesis
  proof (cases "i + i < cnt")
    case True
    then have r: "i + i + 1 < length xs" using assms by linarith
    then obtain c2 where c2: "xs ! (i + i + 1) = Some c2"
      using assms(1) by (metis nth_mem not_Some_eq)
    have "2 * i = i + i" by simp
    then show ?thesis using True l r c c2
      by (simp add: smallerChild_def minChild_def sc_def cscore_def arr_get_def mult_2)
  next
    case False
    then show ?thesis using l c
      by (simp add: smallerChild_def minChild_def sc_def cscore_def arr_get_def mult_2)
  qed
qed

lemma downHeap_loop_rule:
  fixes it :: "'a IScoredValue"
  assumes full: "None \<notin> set xs" and len: "length xs = n" and i0: "0 < i" and i: "i < n"
    and cnt: "cnt < n"
    and init: "I (xs[i := Some it]) i"
    and step: "\<And>v j. \<lbrakk>I v j; None \<notin> set v; length v = n; 0 < j; j \<le> cnt div 2; v ! j = Some it;
                 \<not> js_le (score it) (sc v (minChild v cnt j))\<rbrakk>
               \<Longrightarrow> I (v[j := v ! (minChild v cnt j), minChild v cnt j := Some it]) (minChild v cnt j)"
    and final: "\<And>v j. \<lbrakk>I v j; None \<notin> set v; length v = n; 0 < j; j < n; v ! j = Some it;
                 cnt div 2 < j \<or> js_le (score it) (sc v (minChild v cnt j))\<rbrakk> \<Longrightarrow> Q v"
  shows "\<exists>ys. downHeap_loop xs cnt (Some it) i = Some (Inr ys) \<and> Q ys"
  using full len i0 i init
proof (induction "cnt - i" arbitrary: xs i rule: less_induct)
  case less
  let ?v = "xs[i := Some it]"
  have vfull: "None \<notin> set ?v"
    using less.prems(1) by (auto dest: set_update_subset_insert [THEN subsetD])
  have vlen: "length ?v = n" using less.prems(2) by simp
  have vi: "?v ! i = Some it" using less.prems(2,4) by simp
  show ?case
  proof (cases "i \<le> cnt div 2")
    case False
    then have "downHeap_loop xs cnt (Some it) i = Some (Inr ?v)"
      using less.prems(2,4) by (subst downHeap_loop.simps) (simp add: arr_set_def)
    moreover have "Q ?v"
      using final [OF less.prems(5) vfull vlen less.prems(3,4) vi] False by simp
    ultimately show ?thesis by simp
  next
    case True
    let ?m = "minChild xs cnt i"
    have sm: "smallerChild xs cnt i = Inr (?m, sc xs ?m)"
      using smallerChild_full [OF less.prems(1) _ True] cnt less.prems(2) by simp
    have m_bounds: "i < ?m" "?m \<le> cnt"
      using True less.prems(3) by (auto simp: minChild_def)
    have kids: "sc ?v (2 * i) = sc xs (2 * i)" "sc ?v (2 * i + 1) = sc xs (2 * i + 1)"
      using less.prems(3) by (simp_all add: sc_def cscore_def)
    have mv: "minChild ?v cnt i = ?m" using kids by (simp add: minChild_def)
    have scm: "sc ?v ?m = sc xs ?m" using m_bounds by (simp add: sc_def cscore_def)
    have mlen: "?m < length xs" using m_bounds cnt less.prems(2) by simp
    then obtain mc where mc: "xs ! ?m = Some mc"
      using less.prems(1) by (metis nth_mem not_Some_eq)
    show ?thesis
    proof (cases "js_le (score it) (sc xs ?m)")
      case le: True
      then have "downHeap_loop xs cnt (Some it) i = Some (Inr ?v)"
        using less.prems(2,4) True sm by (subst downHeap_loop.simps) (simp add: arr_set_def)
      moreover have "Q ?v"
        using final [OF less.prems(5) vfull vlen less.prems(3,4) vi] le mv scm by simp
      ultimately show ?thesis by simp
    next
      case gt: False
      let ?xs' = "xs[i := Some mc]"
      have eq: "downHeap_loop xs cnt (Some it) i = downHeap_loop ?xs' cnt (Some it) ?m"
        using less.prems(2,4) True sm gt mlen mc
        by (subst downHeap_loop.simps) (simp add: arr_set_def arr_get_def)
      have "I (?v[i := ?v ! ?m, ?m := Some it]) ?m"
        using step [OF less.prems(5) vfull vlen less.prems(3) True vi] gt mv scm by simp
      moreover have "?v[i := ?v ! ?m, ?m := Some it] = ?xs'[?m := Some it]"
        using m_bounds mc by simp
      ultimately have I': "I (?xs'[?m := Some it]) ?m" by simp
      have full': "None \<notin> set ?xs'"
        using less.prems(1) by (auto dest: set_update_subset_insert [THEN subsetD])
      have "\<exists>ys. downHeap_loop ?xs' cnt (Some it) ?m = Some (Inr ys) \<and> Q ys"
        using less.hyps [OF _ full' _ _ _ I'] less.prems(2) m_bounds cnt by simp
      with eq show ?thesis by simp
    qed
  qed
qed

lemma sc_swap:
  "a < length v \<Longrightarrow> b < length v \<Longrightarrow>
     sc (v[a := v ! b, b := v ! a]) k = (if k = b then sc v a else if k = a then sc v b else sc v k)"
  by (simp add: sc_def cscore_def nth_list_update)

lemma upInv_step:
  assumes inv: "upInv v n j" and j: "j \<le> n" "n < length v" and p: "0 < j div 2"
    and lt: "sc v j < sc v (j div 2)"
  shows "upInv (v[j := v ! (j div 2), j div 2 := v ! j]) n (j div 2)"
proof -
  let ?p = "j div 2"
  let ?w = "v[j := v ! ?p, ?p := v ! j]"
  have pj: "?p < j" using p by simp
  have w: "\<And>k. sc ?w k = (if k = ?p then sc v j else if k = j then sc v ?p else sc v k)"
    using j pj by (intro sc_swap) simp_all
  from inv have A: "\<And>c. 2 \<le> c \<Longrightarrow> c \<le> n \<Longrightarrow> c \<noteq> j \<Longrightarrow> sc v (c div 2) \<le> sc v c"
    and B: "\<And>c. 2 \<le> c \<Longrightarrow> c \<le> n \<Longrightarrow> c div 2 = j \<Longrightarrow> sc v ?p \<le> sc v c"
    using p by (auto simp: upInv_def)
  have 1: "sc ?w (c div 2) \<le> sc ?w c" if c: "2 \<le> c" "c \<le> n" "c \<noteq> ?p" for c
  proof (cases "c = j")
    case True
    then show ?thesis using lt pj by (simp add: w)
  next
    case False
    consider "c div 2 = j" | "c div 2 = ?p" | "c div 2 \<noteq> j" "c div 2 \<noteq> ?p" by blast
    then show ?thesis
    proof cases
      case 1
      then have "c div 2 \<noteq> ?p" using pj by simp
      then show ?thesis using 1 B [OF c(1,2) 1] False c(3) by (simp add: w)
    next
      case 2
      then show ?thesis using A [OF c(1,2) False] lt False c(3) by (simp add: w)
    next
      case 3
      then show ?thesis using A [OF c(1,2) False] False c(3) by (simp add: w)
    qed
  qed
  have 2: "sc ?w (?p div 2) \<le> sc ?w c" if c: "2 \<le> c" "c \<le> n" "c div 2 = ?p" "2 \<le> ?p" for c
  proof -
    have pp: "?p div 2 \<noteq> ?p" "?p div 2 \<noteq> j" using c(4) pj by auto
    have "?p \<le> n" using pj j by simp
    then have base: "sc v (?p div 2) \<le> sc v ?p" using A [of ?p] c(4) pj by simp
    have cp: "c \<noteq> ?p" using c(3,1) by auto
    show ?thesis
    proof (cases "c = j")
      case True
      then show ?thesis using base pp by (simp add: w)
    next
      case False
      then show ?thesis using A [OF c(1,2) False] c(3) base pp cp by (simp add: w)
    qed
  qed
  show ?thesis unfolding upInv_def using 1 2 by blast
qed

lemma upInv_final:
  assumes "upInv v n j" "j div 2 = 0 \<or> sc v (j div 2) \<le> sc v j"
  shows "heapArr v n"
  unfolding heapArr_def
proof (intro allI impI)
  fix c assume c: "2 \<le> c \<and> c \<le> n"
  show "sc v (c div 2) \<le> sc v c"
  proof (cases "c = j")
    case True
    then have "j div 2 \<noteq> 0" using c by auto
    then show ?thesis using assms(2) True by simp
  next
    case False
    then show ?thesis using assms(1) c by (simp add: upInv_def)
  qed
qed

lemma minChild_cases:
  "minChild v cnt j = 2 * j \<or> (minChild v cnt j = 2 * j + 1 \<and> 2 * j + 1 \<le> cnt)"
  by (auto simp: minChild_def)

lemma clean_sc: "clean v \<Longrightarrow> k < length v \<Longrightarrow> sc v k \<noteq> NaN"
  unfolding clean_def sc_def by (metis imageI nth_mem)

lemma clean_mset: "mset v = mset w \<Longrightarrow> clean v = clean w"
  by (simp add: clean_def) (metis set_mset_mset)

lemma minChild_le:
  assumes "c div 2 = j" "c \<le> cnt" "clean v" "cnt < length v"
  shows "sc v (minChild v cnt j) \<le> sc v c"
proof -
  have c: "c = 2 * j \<or> c = 2 * j + 1" using assms(1) by auto
  show ?thesis
  proof (cases "2 * j < cnt")
    case True
    then have "sc v (2 * j) \<noteq> NaN" "sc v (2 * j + 1) \<noteq> NaN"
      using assms(3,4) by (simp_all add: clean_sc)
    then show ?thesis using c True by (auto simp: minChild_def js_gt_iff)
  next
    case False
    then show ?thesis using c assms(2) by (auto simp: minChild_def)
  qed
qed

lemma downInv_step:
  assumes inv: "downInv v cnt j" and j: "0 < j" "j \<le> cnt div 2" "cnt < length v"
    and lt: "sc v (minChild v cnt j) < sc v j" and cl: "clean v"
  shows "downInv (v[j := v ! (minChild v cnt j), minChild v cnt j := v ! j]) cnt (minChild v cnt j)"
proof -
  let ?m = "minChild v cnt j"
  let ?w = "v[j := v ! ?m, ?m := v ! j]"
  have m: "j < ?m" "?m \<le> cnt" "?m div 2 = j" "2 \<le> ?m"
    using j minChild_cases [of v cnt j] by auto
  have w: "\<And>k. sc ?w k = (if k = ?m then sc v j else if k = j then sc v ?m else sc v k)"
    using j m by (intro sc_swap) simp_all
  from inv have A: "\<And>c. 2 \<le> c \<Longrightarrow> c \<le> cnt \<Longrightarrow> c div 2 \<noteq> j \<Longrightarrow> sc v (c div 2) \<le> sc v c"
    and B: "\<And>c. 2 \<le> c \<Longrightarrow> c \<le> cnt \<Longrightarrow> c div 2 = j \<Longrightarrow> 2 \<le> j \<Longrightarrow> sc v (j div 2) \<le> sc v c"
    by (auto simp: downInv_def)
  have 1: "sc ?w (c div 2) \<le> sc ?w c" if c: "2 \<le> c" "c \<le> cnt" "c div 2 \<noteq> ?m" for c
  proof -
    consider "c = ?m" | "c = j" | "c \<noteq> ?m" "c \<noteq> j" "c div 2 = j" | "c \<noteq> ?m" "c \<noteq> j" "c div 2 \<noteq> j"
      by blast
    then show ?thesis
    proof cases
      case 1
      then show ?thesis using lt m by (simp add: w)
    next
      case 2
      then have j2: "2 \<le> j" using c by simp
      then have "j div 2 < j" by simp
      then show ?thesis using 2 B [OF m(4) m(2) m(3) j2] m(1) by (simp add: w)
    next
      case 3
      then show ?thesis using minChild_le [OF 3(3) c(2) cl j(3)] m(1) by (simp add: w)
    next
      case 4
      then show ?thesis using A [OF c(1,2) 4(3)] c(3) by (simp add: w)
    qed
  qed
  have 2: "sc ?w (?m div 2) \<le> sc ?w c" if c: "2 \<le> c" "c \<le> cnt" "c div 2 = ?m" for c
  proof -
    have "?m < c" using c(3) m(4) by linarith
    moreover have "c div 2 \<noteq> j" using c(3) m(1) by simp
    ultimately show ?thesis using A [OF c(1,2)] c(3) m by (simp add: w)
  qed
  show ?thesis unfolding downInv_def using 1 2 by blast
qed

lemma downInv_final:
  assumes "downInv v cnt j" "cnt div 2 < j \<or> sc v j \<le> sc v (minChild v cnt j)"
    and "clean v" "cnt < length v"
  shows "heapArr v cnt"
  unfolding heapArr_def
proof (intro allI impI)
  fix c assume c: "2 \<le> c \<and> c \<le> cnt"
  show "sc v (c div 2) \<le> sc v c"
  proof (cases "c div 2 = j")
    case True
    then have "\<not> cnt div 2 < j" using c by auto
    then have "sc v j \<le> sc v (minChild v cnt j)" using assms(2) by simp
    also have "\<dots> \<le> sc v c" using minChild_le [OF True _ assms(3,4)] c by simp
    finally show ?thesis using True by simp
  next
    case False
    then show ?thesis using assms(1) c by (simp add: downInv_def)
  qed
qed

lemma full_nth: "None \<notin> set xs \<Longrightarrow> j < length xs \<Longrightarrow> \<exists>a. xs ! j = Some a"
  by (metis nth_mem not_Some_eq)

lemma full_update: "None \<notin> set xs \<Longrightarrow> None \<notin> set (xs[j := Some a])"
  by (auto dest: set_update_subset_insert [THEN subsetD])

lemma clean_update:
  "clean xs \<Longrightarrow> cscore c \<noteq> NaN \<Longrightarrow> clean (xs[j := c])"
  unfolding clean_def by (auto dest: set_update_subset_insert [THEN subsetD])

lemma clean_nth: "clean xs \<Longrightarrow> j < length xs \<Longrightarrow> cscore (xs ! j) \<noteq> NaN"
  unfolding clean_def by (metis imageI nth_mem)

lemma upHeap_loop_spec:
  fixes it :: "'a IScoredValue"
  assumes full: "None \<notin> set xs" and len: "length xs = N" and i: "1 \<le> i" "i \<le> n" "n < N"
  shows "\<exists>ys. upHeap_loop xs (Some it) i = Inr ys \<and> length ys = N \<and>
           None \<notin> set ys \<and> mset ys = mset (xs[i := Some it]) \<and> ys ! 0 = xs ! 0 \<and>
           (\<forall>k. n < k \<longrightarrow> ys ! k = xs ! k) \<and>
           (clean (xs[i := Some it]) \<and> upInv (xs[i := Some it]) n i \<longrightarrow> heapArr ys n)"
proof (rule upHeap_loop_rule [where n = N and
      I = "\<lambda>v j. j \<le> n \<and> mset v = mset (xs[i := Some it]) \<and> v ! 0 = xs ! 0 \<and>
                 (\<forall>k. n < k \<longrightarrow> v ! k = xs ! k) \<and>
                 (clean (xs[i := Some it]) \<and> upInv (xs[i := Some it]) n i \<longrightarrow> upInv v n j)"])
  show "None \<notin> set xs" "length xs = N" "i < N" using full len i by simp_all
  show "i \<le> n \<and> mset (xs[i := Some it]) = mset (xs[i := Some it]) \<and>
        xs[i := Some it] ! 0 = xs ! 0 \<and> (\<forall>k. n < k \<longrightarrow> xs[i := Some it] ! k = xs ! k) \<and>
        (clean (xs[i := Some it]) \<and> upInv (xs[i := Some it]) n i \<longrightarrow> upInv (xs[i := Some it]) n i)"
    using i by simp
next
  fix v :: "'a cell list" and j
  assume I: "j \<le> n \<and> mset v = mset (xs[i := Some it]) \<and> v ! 0 = xs ! 0 \<and>
             (\<forall>k. n < k \<longrightarrow> v ! k = xs ! k) \<and>
             (clean (xs[i := Some it]) \<and> upInv (xs[i := Some it]) n i \<longrightarrow> upInv v n j)"
    and v: "None \<notin> set v" "length v = N" "j < N" "v ! j = Some it"
    and p: "0 < j div 2" and gt: "js_gt (sc v (j div 2)) (score it)"
  have scj: "sc v j = score it" using v(4) by (simp add: sc_def cscore_def)
  have pj: "j div 2 < j" using p by simp
  have ord: "upInv (v[j := v ! (j div 2), j div 2 := v ! j]) n (j div 2)"
    if c: "clean (xs[i := Some it]) \<and> upInv (xs[i := Some it]) n i"
  proof -
    from c I have inv: "upInv v n j" and cl: "clean v" using clean_mset [of v "xs[i := Some it]"] by auto
    have "sc v j \<noteq> NaN" "sc v (j div 2) \<noteq> NaN" using cl v(2,3) pj by (simp_all add: clean_sc)
    then have "sc v j < sc v (j div 2)" using gt scj by (simp add: js_gt_iff)
    then show ?thesis using inv I v i p by (intro upInv_step) simp_all
  qed
  have "mset (v[j := v ! (j div 2), j div 2 := v ! j]) = mset v"
    using v pj by (intro mset_swap) simp_all
  with ord show "j div 2 \<le> n \<and>
        mset (v[j := v ! (j div 2), j div 2 := Some it]) = mset (xs[i := Some it]) \<and>
        v[j := v ! (j div 2), j div 2 := Some it] ! 0 = xs ! 0 \<and>
        (\<forall>k. n < k \<longrightarrow> v[j := v ! (j div 2), j div 2 := Some it] ! k = xs ! k) \<and>
        (clean (xs[i := Some it]) \<and> upInv (xs[i := Some it]) n i \<longrightarrow>
           upInv (v[j := v ! (j div 2), j div 2 := Some it]) n (j div 2))"
    using I v(4) p pj by auto
next
  fix v :: "'a cell list" and j
  assume I: "j \<le> n \<and> mset v = mset (xs[i := Some it]) \<and> v ! 0 = xs ! 0 \<and>
             (\<forall>k. n < k \<longrightarrow> v ! k = xs ! k) \<and>
             (clean (xs[i := Some it]) \<and> upInv (xs[i := Some it]) n i \<longrightarrow> upInv v n j)"
    and v: "None \<notin> set v" "length v = N" "j < N" "v ! j = Some it"
    and fin: "j div 2 = 0 \<or> \<not> js_gt (sc v (j div 2)) (score it)"
  have scj: "sc v j = score it" using v(4) by (simp add: sc_def cscore_def)
  have ord: "heapArr v n" if c: "clean (xs[i := Some it]) \<and> upInv (xs[i := Some it]) n i"
  proof -
    from c I have inv: "upInv v n j" and cl: "clean v" using clean_mset [of v "xs[i := Some it]"] by auto
    have "sc v j \<noteq> NaN" "sc v (j div 2) \<noteq> NaN" using cl v(2,3) by (simp_all add: clean_sc)
    then have "j div 2 = 0 \<or> sc v (j div 2) \<le> sc v j"
      using fin scj by (auto simp: js_gt_iff)
    then show ?thesis by (rule upInv_final [OF inv])
  qed
  then show "length v = N \<and> None \<notin> set v \<and> mset v = mset (xs[i := Some it]) \<and>
        v ! 0 = xs ! 0 \<and> (\<forall>k. n < k \<longrightarrow> v ! k = xs ! k) \<and>
        (clean (xs[i := Some it]) \<and> upInv (xs[i := Some it]) n i \<longrightarrow> heapArr v n)"
    using I v by simp
qed

lemma downHeap_loop_spec:
  fixes it :: "'a IScoredValue"
  assumes full: "None \<notin> set xs" and len: "length xs = N" and i: "0 < i" "i < N" and cnt: "cnt < N"
  shows "\<exists>ys. downHeap_loop xs cnt (Some it) i = Some (Inr ys) \<and> length ys = N \<and>
           None \<notin> set ys \<and> mset ys = mset (xs[i := Some it]) \<and>
           (\<forall>k. k = 0 \<or> cnt < k \<longrightarrow> ys ! k = xs[i := Some it] ! k) \<and>
           (clean (xs[i := Some it]) \<and> downInv (xs[i := Some it]) cnt i \<longrightarrow> heapArr ys cnt)"
proof (rule downHeap_loop_rule [where n = N and
      I = "\<lambda>v j. mset v = mset (xs[i := Some it]) \<and>
                 (\<forall>k. k = 0 \<or> cnt < k \<longrightarrow> v ! k = xs[i := Some it] ! k) \<and>
                 (clean (xs[i := Some it]) \<and> downInv (xs[i := Some it]) cnt i \<longrightarrow> downInv v cnt j)"])
  show "None \<notin> set xs" "length xs = N" "0 < i" "i < N" "cnt < N" using full len i cnt by simp_all
  show "mset (xs[i := Some it]) = mset (xs[i := Some it]) \<and>
        (\<forall>k. k = 0 \<or> cnt < k \<longrightarrow> xs[i := Some it] ! k = xs[i := Some it] ! k) \<and>
        (clean (xs[i := Some it]) \<and> downInv (xs[i := Some it]) cnt i \<longrightarrow>
           downInv (xs[i := Some it]) cnt i)"
    by simp
next
  fix v :: "'a cell list" and j
  let ?m = "minChild v cnt j"
  assume I: "mset v = mset (xs[i := Some it]) \<and>
             (\<forall>k. k = 0 \<or> cnt < k \<longrightarrow> v ! k = xs[i := Some it] ! k) \<and>
             (clean (xs[i := Some it]) \<and> downInv (xs[i := Some it]) cnt i \<longrightarrow> downInv v cnt j)"
    and v: "None \<notin> set v" "length v = N" "0 < j" "j \<le> cnt div 2" "v ! j = Some it"
    and gt: "\<not> js_le (score it) (sc v ?m)"
  have scj: "sc v j = score it" using v(5) by (simp add: sc_def cscore_def)
  have m: "j < ?m" "?m \<le> cnt" using v(3,4) minChild_cases [of v cnt j] by auto
  have ord: "downInv (v[j := v ! ?m, ?m := v ! j]) cnt ?m"
    if c: "clean (xs[i := Some it]) \<and> downInv (xs[i := Some it]) cnt i"
  proof -
    from c I have inv: "downInv v cnt j" and cl: "clean v"
      using clean_mset [of v "xs[i := Some it]"] by auto
    have "sc v j \<noteq> NaN" "sc v ?m \<noteq> NaN" using cl v(2) m cnt by (simp_all add: clean_sc)
    then have "sc v ?m < sc v j" using gt scj by (simp add: js_le_iff not_le)
    then show ?thesis using inv v cnt cl by (intro downInv_step) simp_all
  qed
  have "mset (v[j := v ! ?m, ?m := v ! j]) = mset v"
    using v m cnt by (intro mset_swap) simp_all
  with ord show "mset (v[j := v ! ?m, ?m := Some it]) = mset (xs[i := Some it]) \<and>
        (\<forall>k. k = 0 \<or> cnt < k \<longrightarrow> v[j := v ! ?m, ?m := Some it] ! k = xs[i := Some it] ! k) \<and>
        (clean (xs[i := Some it]) \<and> downInv (xs[i := Some it]) cnt i \<longrightarrow>
           downInv (v[j := v ! ?m, ?m := Some it]) cnt ?m)"
    using I v(3,5) m by auto
next
  fix v :: "'a cell list" and j
  assume I: "mset v = mset (xs[i := Some it]) \<and>
             (\<forall>k. k = 0 \<or> cnt < k \<longrightarrow> v ! k = xs[i := Some it] ! k) \<and>
             (clean (xs[i := Some it]) \<and> downInv (xs[i := Some it]) cnt i \<longrightarrow> downInv v cnt j)"
    and v: "None \<notin> set v" "length v = N" "0 < j" "j < N" "v ! j = Some it"
    and fin: "cnt div 2 < j \<or> js_le (score it) (sc v (minChild v cnt j))"
  have scj: "sc v j = score it" using v(5) by (simp add: sc_def cscore_def)
  have ord: "heapArr v cnt" if c: "clean (xs[i := Some it]) \<and> downInv (xs[i := Some it]) cnt i"
  proof -
    from c I have inv: "downInv v cnt j" and cl: "clean v"
      using clean_mset [of v "xs[i := Some it]"] by auto
    have "cnt div 2 < j \<or> sc v j \<le> sc v (minChild v cnt j)"
      using fin scj js_le_not_NaN [of "score it" "sc v (minChild v cnt j)"]
      by (auto simp: js_le_iff)
    then show ?thesis using cl cnt v(2) by (intro downInv_final [OF inv]) simp_all
  qed
  then show "length v = N \<and> None \<notin> set v \<and> mset v = mset (xs[i := Some it]) \<and>
        (\<forall>k. k = 0 \<or> cnt < k \<longrightarrow> v ! k = xs[i := Some it] ! k) \<and>
        (clean (xs[i := Some it]) \<and> downInv (xs[i := Some it]) cnt i \<longrightarrow> heapArr v cnt)"
    using I v by simp
qed

lemma heapArr_root_min:
  assumes "heapArr xs n" "1 \<le> j" "j \<le> n"
  shows "sc xs 1 \<le> sc xs j"
  using assms(2,3)
proof (induction j rule: less_induct)
  case (less j)
  show ?case
  proof (cases "j = 1")
    case True
    then show ?thesis by simp
  next
    case False
    with less.prems have j2: "2 \<le> j" by simp
    then have "sc xs 1 \<le> sc xs (j div 2)"
      using less.IH [of "j div 2"] less.prems by simp
    also have "\<dots> \<le> sc xs j" using assms(1) j2 less.prems by (simp add: heapArr_def)
    finally show ?thesis .
  qed
qed

lemma mset_update_add:
  "i < length ls \<Longrightarrow> add_mset (ls ! i) (mset (ls[i := v])) = add_mset v (mset ls)"
  by (simp add: mset_update)

lemma sc_update_other: "j \<noteq> i \<Longrightarrow> sc (xs[i := v]) j = sc xs j"
  by (simp add: sc_def cscore_def)

lemma removeTop_spec:
  fixes s :: "'a TopNCollection"
  assumes full: "None \<notin> set xs" and len: "length xs = N" and k: "1 \<le> k" "k < N"
    and s: "tn_items s = xs" "tn_count s = k"
  shows "\<exists>ys. removeTop s = Some (Inr (xs ! 1, s\<lparr>tn_items := ys, tn_count := k - 1\<rparr>)) \<and>
           length ys = N \<and> None \<notin> set ys \<and>
           mset ys = mset (xs[1 := xs ! k]) \<and> (\<forall>j. j = 0 \<or> k \<le> j \<longrightarrow> ys ! j = xs ! j) \<and>
           (clean xs \<and> heapArr xs k \<longrightarrow> heapArr ys (k - 1))"
proof -
  obtain it where it: "xs ! k = Some it" using full_nth [OF full] k len by blast
  let ?xs1 = "xs[1 := Some it]"
  have full1: "None \<notin> set ?xs1" using full by (rule full_update)
  have self: "?xs1[1 := Some it] = ?xs1" by simp
  have ord1: "clean ?xs1 \<and> downInv ?xs1 (k - 1) 1" if c: "clean xs \<and> heapArr xs k"
  proof
    have "cscore (Some it) \<noteq> NaN" using clean_nth [of xs k] c it k len by simp
    then show "clean ?xs1" using c by (simp add: clean_update)
    show "downInv ?xs1 (k - 1) 1"
      unfolding downInv_def
    proof (intro conjI allI impI)
      fix c' assume c': "2 \<le> c' \<and> c' \<le> k - 1 \<and> c' div 2 \<noteq> 1"
      then have "c' \<noteq> 1" "c' div 2 \<noteq> 1" by auto
      then have "sc ?xs1 (c' div 2) = sc xs (c' div 2)" "sc ?xs1 c' = sc xs c'"
        by (simp_all add: sc_update_other)
      moreover have "sc xs (c' div 2) \<le> sc xs c'"
        using c c' unfolding heapArr_def by (metis diff_le_self le_trans)
      ultimately show "sc ?xs1 (c' div 2) \<le> sc ?xs1 c'" by simp
    qed simp
  qed
  have "\<exists>ys. downHeap_loop ?xs1 (k - 1) (Some it) 1 = Some (Inr ys) \<and> length ys = N \<and>
           None \<notin> set ys \<and> mset ys = mset (?xs1[1 := Some it]) \<and>
           (\<forall>j. j = 0 \<or> k - 1 < j \<longrightarrow> ys ! j = ?xs1[1 := Some it] ! j) \<and>
           (clean (?xs1[1 := Some it]) \<and> downInv (?xs1[1 := Some it]) (k - 1) 1 \<longrightarrow>
              heapArr ys (k - 1))"
    using full1 len k by (intro downHeap_loop_spec) simp_all
  then obtain ys where ys: "downHeap_loop ?xs1 (k - 1) (Some it) 1 = Some (Inr ys)"
    "length ys = N" "None \<notin> set ys" "mset ys = mset ?xs1"
    "\<forall>j. j = 0 \<or> k - 1 < j \<longrightarrow> ys ! j = ?xs1 ! j"
    "clean ?xs1 \<and> downInv ?xs1 (k - 1) 1 \<longrightarrow> heapArr ys (k - 1)"
    unfolding self by blast
  have "removeTop s = Some (Inr (xs ! 1, s\<lparr>tn_items := ys, tn_count := k - 1\<rparr>))"
    using s k len it ys(1) by (simp add: removeTop_def downHeap_def arr_get_def arr_set_def)
  moreover have "\<forall>j. j = 0 \<or> k \<le> j \<longrightarrow> ys ! j = xs ! j"
  proof (intro allI impI)
    fix j assume j: "j = 0 \<or> k \<le> j"
    then have "ys ! j = ?xs1 ! j" using ys(5) k by auto
    also have "\<dots> = xs ! j"
    proof (cases "j = 1")
      case True
      then have "k = 1" using j k by simp
      then show ?thesis using True it len k by simp
    next
      case False
      then show ?thesis by simp
    qed
    finally show "ys ! j = xs ! j" .
  qed
  moreover have "clean xs \<and> heapArr xs k \<longrightarrow> heapArr ys (k - 1)"
    using ord1 ys(6) by blast
  ultimately show ?thesis using ys it by auto
qed

lemma occupancy_add:
  "length (tn_items s) = tn_count s + 1 \<Longrightarrow> add_mset (tn_items s ! 0) (occupancy s) = mset (tn_items s)"
  by (cases "tn_items s") (simp_all add: occupancy_def)

lemma add_below_capacity:
  fixes s :: "'a TopNCollection"
  assumes inv: "structInv s" and room: "tn_count s \<noteq> tn_maxCount s"
  shows "\<exists>s'. add v x s = Some (Inr s') \<and> structInv s' \<and> tn_maxCount s' = tn_maxCount s \<and>
           tn_count s' = tn_count s + 1 \<and> tn_items s' ! 0 = tn_items s ! 0 \<and>
           occupancy s' = add_mset (cellOf (v, x)) (occupancy s) \<and>
           (heapInv s \<and> x \<noteq> NaN \<longrightarrow> heapInv s')"
proof -
  let ?xs = "tn_items s" and ?k = "tn_count s"
  let ?new = "\<lparr>val = Some v, score = x\<rparr>"
  let ?xs2 = "?xs @ [Some ?new]"
  from inv have len: "length ?xs = ?k + 1" and full: "None \<notin> set ?xs"
    by (simp_all add: structInv_def)
  have full2: "None \<notin> set ?xs2" using full by simp
  have self: "?xs2[?k + 1 := Some ?new] = ?xs2" using len by (simp add: list_update_append)
  have ord2: "clean ?xs2 \<and> upInv ?xs2 (?k + 1) (?k + 1)" if h: "heapInv s \<and> x \<noteq> NaN"
  proof
    from h have cl: "clean ?xs" and heap: "heapArr ?xs ?k" by (simp_all add: heapInv_def)
    show "clean ?xs2" using cl h by (auto simp: clean_def cscore_def)
    show "upInv ?xs2 (?k + 1) (?k + 1)"
      unfolding upInv_def
    proof (intro conjI allI impI)
      fix c assume c: "2 \<le> c \<and> c \<le> ?k + 1 \<and> c \<noteq> ?k + 1"
      then have "c < length ?xs" "c div 2 < length ?xs" using len by auto
      then have "sc ?xs2 (c div 2) = sc ?xs (c div 2)" "sc ?xs2 c = sc ?xs c"
        by (simp_all add: sc_def nth_append)
      then show "sc ?xs2 (c div 2) \<le> sc ?xs2 c" using heap c by (simp add: heapArr_def)
    next
      fix c assume "2 \<le> c \<and> c \<le> ?k + 1 \<and> c div 2 = ?k + 1 \<and> 2 \<le> ?k + 1"
      then have False by auto
      then show "sc ?xs2 ((?k + 1) div 2) \<le> sc ?xs2 c" ..
    qed
  qed
  have "\<exists>ys. upHeap_loop ?xs2 (Some ?new) (?k + 1) = Inr ys \<and>
           length ys = ?k + 2 \<and> None \<notin> set ys \<and> mset ys = mset (?xs2[?k + 1 := Some ?new]) \<and>
           ys ! 0 = ?xs2 ! 0 \<and> (\<forall>j. ?k + 1 < j \<longrightarrow> ys ! j = ?xs2 ! j) \<and>
           (clean (?xs2[?k + 1 := Some ?new]) \<and> upInv (?xs2[?k + 1 := Some ?new]) (?k + 1) (?k + 1) \<longrightarrow>
              heapArr ys (?k + 1))"
    using full2 len by (intro upHeap_loop_spec) simp_all
  then obtain ys where ys: "upHeap_loop ?xs2 (Some ?new) (?k + 1) = Inr ys"
    "length ys = ?k + 2" "None \<notin> set ys" "mset ys = mset ?xs2"
    "ys ! 0 = ?xs2 ! 0"
    "clean ?xs2 \<and> upInv ?xs2 (?k + 1) (?k + 1) \<longrightarrow> heapArr ys (?k + 1)"
    unfolding self by blast
  let ?s' = "s\<lparr>tn_count := ?k + 1, tn_items := ys\<rparr>"
  have "add v x s = Some (Inr ?s')"
    using room len ys(1) by (simp add: add_def upHeap_def arr_push_def arr_get_def nth_append)
  moreover have "structInv ?s'" using ys by (simp add: structInv_def)
  moreover have "tn_items ?s' ! 0 = ?xs ! 0" using ys(5) len by (simp add: nth_append)
  moreover have "occupancy ?s' = add_mset (cellOf (v, x)) (occupancy s)"
  proof -
    have "add_mset (tn_items ?s' ! 0) (occupancy ?s') = mset (tn_items ?s')"
      by (rule occupancy_add) (simp add: ys(2))
    then have "add_mset (ys ! 0) (occupancy ?s') = mset ys" by simp
    also have "\<dots> = add_mset (Some ?new) (mset ?xs)" using ys(4) by simp
    also have "mset ?xs = add_mset (?xs ! 0) (occupancy s)"
      using occupancy_add [OF len] by simp
    finally show ?thesis using ys(5) len by (simp add: nth_append cellOf_def)
  qed
  moreover have "heapInv s \<and> x \<noteq> NaN \<longrightarrow> heapInv ?s'"
  proof
    assume h: "heapInv s \<and> x \<noteq> NaN"
    from ord2 [OF h] ys(6) have "heapArr ys (?k + 1)" by blast
    moreover have "clean ys" using ord2 [OF h] clean_mset [OF ys(4)] by simp
    ultimately show "heapInv ?s'" using ys by (simp add: heapInv_def structInv_def)
  qed
  ultimately show ?thesis by (intro exI [of _ ?s']) simp
qed

lemma add_at_capacity:
  fixes s :: "'a TopNCollection"
  assumes inv: "structInv s" and cap: "tn_count s = tn_maxCount s" "0 < tn_maxCount s"
  shows "\<exists>t. top s = Some t \<and>
           (js_lt x (score t) \<longrightarrow> add v x s = Some (Inr s)) \<and>
           (\<not> js_lt x (score t) \<longrightarrow>
              (\<exists>s'. add v x s = Some (Inr s') \<and> structInv s' \<and> tn_maxCount s' = tn_maxCount s \<and>
                 tn_count s' = tn_count s \<and> tn_items s' ! 0 = tn_items s ! 0 \<and>
                 add_mset (Some t) (occupancy s') = add_mset (cellOf (v, x)) (occupancy s) \<and>
                 (heapInv s \<and> x \<noteq> NaN \<longrightarrow> heapInv s')))"
proof -
  let ?xs = "tn_items s" and ?k = "tn_count s"
  let ?new = "\<lparr>val = Some v, score = x\<rparr>"
  from inv have len: "length ?xs = ?k + 1" and full: "None \<notin> set ?xs"
    by (simp_all add: structInv_def)
  have k: "1 \<le> ?k" "?k < ?k + 1" using cap by simp_all
  obtain t where t: "?xs ! 1 = Some t" using full_nth [OF full, of 1] len k by auto
  have top: "top s = Some t" using t len k by (simp add: top_def arr_get_def)
  have low: "add v x s = Some (Inr s)" if "js_lt x (score t)"
    using that cap top by (simp add: add_def)
  have high: "\<exists>s'. add v x s = Some (Inr s') \<and> structInv s' \<and> tn_maxCount s' = tn_maxCount s \<and>
                 tn_count s' = tn_count s \<and> tn_items s' ! 0 = tn_items s ! 0 \<and>
                 add_mset (Some t) (occupancy s') = add_mset (cellOf (v, x)) (occupancy s) \<and>
                 (heapInv s \<and> x \<noteq> NaN \<longrightarrow> heapInv s')"
    if nlt: "\<not> js_lt x (score t)"
  proof -
    from removeTop_spec [OF full len k refl refl]
    obtain ys where ys: "removeTop s = Some (Inr (?xs ! 1, s\<lparr>tn_items := ys, tn_count := ?k - 1\<rparr>))"
      "length ys = ?k + 1" "None \<notin> set ys"
      "mset ys = mset (?xs[1 := ?xs ! ?k])" "\<forall>j. j = 0 \<or> ?k \<le> j \<longrightarrow> ys ! j = ?xs ! j"
      "clean ?xs \<and> heapArr ?xs ?k \<longrightarrow> heapArr ys (?k - 1)"
      by blast
    let ?ys2 = "ys[?k := Some ?new]"
    have full2: "None \<notin> set ?ys2" using ys(3) by (rule full_update)
    have self: "?ys2[?k := Some ?new] = ?ys2" by simp
    have ord2: "clean ?ys2 \<and> upInv ?ys2 ?k ?k" if h: "heapInv s \<and> x \<noteq> NaN"
    proof
      from h have cl: "clean ?xs" and heap: "heapArr ?xs ?k" by (simp_all add: heapInv_def)
      have "cscore (?xs ! ?k) \<noteq> NaN" using clean_nth [OF cl, of ?k] len by simp
      with cl have "clean (?xs[1 := ?xs ! ?k])" by (rule clean_update)
      then have "clean ys" using clean_mset [OF ys(4)] by simp
      then show "clean ?ys2" using h by (intro clean_update) (simp_all add: cscore_def)
      from ys(6) cl heap have hy: "heapArr ys (?k - 1)" by blast
      show "upInv ?ys2 ?k ?k"
        unfolding upInv_def
      proof (intro conjI allI impI)
        fix c assume c: "2 \<le> c \<and> c \<le> ?k \<and> c \<noteq> ?k"
        then have "c \<noteq> ?k" "c div 2 \<noteq> ?k" by auto
        then have "sc ?ys2 (c div 2) = sc ys (c div 2)" "sc ?ys2 c = sc ys c"
          by (simp_all add: sc_update_other)
        moreover have "c \<le> ?k - 1" using c by arith
        then have "sc ys (c div 2) \<le> sc ys c" using hy c by (simp add: heapArr_def)
        ultimately show "sc ?ys2 (c div 2) \<le> sc ?ys2 c" by simp
      next
        fix c assume "2 \<le> c \<and> c \<le> ?k \<and> c div 2 = ?k \<and> 2 \<le> ?k"
        then have False by auto
        then show "sc ?ys2 (?k div 2) \<le> sc ?ys2 c" ..
      qed
    qed
    have "\<exists>zs. upHeap_loop ?ys2 (Some ?new) ?k = Inr zs \<and>
           length zs = ?k + 1 \<and> None \<notin> set zs \<and> mset zs = mset (?ys2[?k := Some ?new]) \<and>
           zs ! 0 = ?ys2 ! 0 \<and> (\<forall>j. ?k < j \<longrightarrow> zs ! j = ?ys2 ! j) \<and>
           (clean (?ys2[?k := Some ?new]) \<and> upInv (?ys2[?k := Some ?new]) ?k ?k \<longrightarrow> heapArr zs ?k)"
      using full2 ys(2) k by (intro upHeap_loop_spec) simp_all
    then obtain zs where zs: "upHeap_loop ?ys2 (Some ?new) ?k = Inr zs"
      "length zs = ?k + 1" "None \<notin> set zs" "mset zs = mset ?ys2"
      "zs ! 0 = ?ys2 ! 0"
      "clean ?ys2 \<and> upInv ?ys2 ?k ?k \<longrightarrow> heapArr zs ?k"
      unfolding self by blast
    let ?s' = "s\<lparr>tn_items := zs\<rparr>"
    have rec: "t\<lparr>val := Some v, score := x\<rparr> = ?new" by simp
    have same: "\<And>w. s\<lparr>tn_count := tn_maxCount s, tn_items := w\<rparr> = s\<lparr>tn_items := w\<rparr>"
      using cap(1) by (cases s) simp
    have "add v x s = Some (Inr ?s')"
      using cap top nlt ys(1,2) t k zs(1)
      by (simp add: add_def upHeap_def arr_set_def arr_get_def Let_def rec same)
    moreover have "structInv ?s'" using zs by (simp add: structInv_def)
    moreover have z0: "zs ! 0 = ?xs ! 0" using zs(5) ys(5) k by simp
    moreover have "add_mset (Some t) (occupancy ?s') = add_mset (cellOf (v, x)) (occupancy s)"
    proof -
      have a: "add_mset (?xs ! 1) (mset ys) = add_mset (?xs ! ?k) (mset ?xs)"
        using mset_update_add [of 1 ?xs "?xs ! ?k"] len k ys(4) by simp
      have "ys ! ?k = ?xs ! ?k" using ys(5) by simp
      then have b: "add_mset (?xs ! ?k) (mset zs) = add_mset (Some ?new) (mset ys)"
        using mset_update_add [of ?k ys "Some ?new"] ys(2) zs(4) by simp
      have "add_mset (?xs ! ?k) (add_mset (Some t) (mset zs))
            = add_mset (?xs ! ?k) (add_mset (Some ?new) (mset ?xs))"
        using a b t by (simp add: add_mset_commute)
      then have c: "add_mset (Some t) (mset zs) = add_mset (Some ?new) (mset ?xs)" by simp
      have "add_mset (tn_items ?s' ! 0) (occupancy ?s') = mset (tn_items ?s')"
        by (rule occupancy_add) (simp add: zs(2))
      then have "add_mset (zs ! 0) (occupancy ?s') = mset zs" by simp
      moreover have "add_mset (?xs ! 0) (occupancy s) = mset ?xs" by (rule occupancy_add [OF len])
      ultimately have "add_mset (?xs ! 0) (add_mset (Some t) (occupancy ?s'))
            = add_mset (?xs ! 0) (add_mset (Some ?new) (occupancy s))"
        using c z0 by (simp add: add_mset_commute)
      then show ?thesis by (simp add: cellOf_def)
    qed
    moreover have "heapInv s \<and> x \<noteq> NaN \<longrightarrow> heapInv ?s'"
    proof
      assume h: "heapInv s \<and> x \<noteq> NaN"
      from ord2 [OF h] zs(6) have "heapArr zs ?k" by blast
      moreover have "clean zs" using ord2 [OF h] clean_mset [OF zs(4)] by simp
      ultimately show "heapInv ?s'" using zs by (simp add: heapInv_def structInv_def)
    qed
    ultimately show ?thesis by (intro exI [of _ ?s']) simp
  qed
  from top low high show ?thesis by blast
qed

section \<open>Embedding: normalisation\<close>

text \<open>
  Claim C9. \<open>normalize\<close> is idempotent: a second call changes nothing, whatever the kernel
  \<open>normalize32\<close> does, because the flag set by the first call guards the scaling. After
  \<open>normalize\<close>, \<open>euclideanLength\<close> takes the branch of the flag and returns exactly 1.
\<close>

theorem normalize_idempotent_unit_length:
  "normalize vm (normalize vm e) = normalize vm e
   \<and> isNormalized (normalize vm e)
   \<and> euclideanLength vm (normalize vm e) = Fin 1"
  by (simp add: normalize_def euclideanLength_def isNormalized_def)

section \<open>TopNCollection: clear\<close>

lemma clear_fields:
  "tn_count (clear s) = tn_count s" "tn_maxCount (clear s) = tn_maxCount s"
  "tn_items s \<noteq> [] \<Longrightarrow> tn_items (clear s) = [hd (tn_items s)]"
  by (cases "tn_items s"; simp add: clear_def arr_defs)+

text \<open>
  Claim C5. \<open>clear\<close> truncates the array to the sentinel and leaves \<open>_maxCount\<close> alone, but
  it does not reset \<open>_count\<close>: after one \<open>add\<close> into a collection of capacity 3, \<open>clear\<close>
  leaves the count at 1 over an array that holds the sentinel only.
\<close>

theorem clear_after_add_keeps_count:
  "adds [(''A'', Fin 1)] (fresh 3) =
     Some (Inr \<lparr>tn_items = [Some sentinel, Some \<lparr>val = Some ''A'', score = Fin 1\<rparr>],
                tn_count = 1, tn_maxCount = 3\<rparr>)
   \<and> clear \<lparr>tn_items = [Some sentinel, Some \<lparr>val = Some ''A'', score = Fin 1\<rparr>],
             tn_count = 1, tn_maxCount = 3\<rparr> =
       \<lparr>tn_items = [Some sentinel], tn_count = 1, tn_maxCount = 3\<rparr>"
  by (simp add: add_def fresh_def upHeap_def upHeap_loop.simps arr_defs top_def clear_def)

section \<open>TopNCollection: the empty collection\<close>

text \<open>
  Claim C8, as stated, fails for \<open>sortDescending\<close>: on the empty collection of capacity 3
  the loop is not entered and the call returns normally.
\<close>

theorem sortDescending_empty_returns:
  "tn_count (fresh 3 :: string TopNCollection) = 0
   \<and> sortDescending (fresh 3 :: string TopNCollection) = Some (Inr (fresh 3))"
  by (simp add: sortDescending_def sortDescending_loop.simps fresh_def)

text \<open>
  Claim C8, amended. On a collection with count 0, \<open>removeTop\<close> throws the argument
  exception before it changes anything, and \<open>sortDescending\<close> returns normally; both leave
  the collection unchanged.
\<close>

theorem empty_removeTop_throws_sortDescending_returns:
  "tn_count s = 0 \<Longrightarrow>
     removeTop s = Some (Inl (ArgumentException, s)) \<and> sortDescending s = Some (Inr s)"
  by (simp add: removeTop_def sortDescending_def sortDescending_loop.simps)

theorem empty_removeTop_throws_sortDescending_returns_witness:
  "tn_count (fresh 3 :: string TopNCollection) = 0
   \<and> removeTop (fresh 3 :: string TopNCollection) = Some (Inl (ArgumentException, fresh 3))
   \<and> sortDescending (fresh 3 :: string TopNCollection) = Some (Inr (fresh 3))"
  using empty_removeTop_throws_sortDescending_returns [of "fresh 3 :: string TopNCollection"]
  by (simp add: fresh_def)

section \<open>VectorizedList: nearest and search\<close>

lemma js_lt_not_ge: "js_lt a b \<Longrightarrow> \<not> js_ge a b"
  by (cases a; cases b) (simp_all add: js_ge_def)

lemma js_gt_irrefl: "\<not> js_gt a a"
  by (cases a) (simp_all add: js_gt_def)

lemma js_ge_trans: "js_ge a b \<Longrightarrow> js_ge b c \<Longrightarrow> js_ge a c"
  by (cases a; cases b; cases c) (simp_all add: js_ge_def)

lemma js_not_gt_ge: "\<not> js_gt a b \<Longrightarrow> js_ge c b \<Longrightarrow> \<not> js_gt a c"
  by (cases a; cases b; cases c) (simp_all add: js_ge_def js_gt_def)

lemma js_gt_ge: "js_gt a b \<Longrightarrow> js_ge a b"
  by (cases a; cases b) (simp_all add: js_ge_def js_gt_def)

lemma nearest_loop_below:
  "\<forall>j < length embs. \<not> js_ge (cosineSimilarity vm (embs ! j) other) b \<Longrightarrow>
     nearest_loop vm embs other b k i = (b, k)"
proof (induction vm embs other b k i rule: nearest_loop.induct)
  case (1 vm embs other bestScore iNearest i)
  show ?case
  proof (cases "i < length embs")
    case True
    with "1.prems" have "\<not> js_ge (cosineSimilarity vm (embs ! i) other) bestScore"
      by simp
    with True "1.IH"(2) "1.prems" show ?thesis
      by (subst nearest_loop.simps) simp
  next
    case False
    then show ?thesis
      by (subst nearest_loop.simps) simp
  qed
qed

text \<open>
  \<open>search\<close> feeds to \<open>add\<close>, in storage order, the items whose similarity passes the test
  \<open>score >= minScore\<close>, and no other.
\<close>

lemma search_loop_adds:
  "search_loop vm l q minScore matches i =
     adds (map (\<lambda>j. (item_at (vl_items l) (int j), cosineSimilarity vm (vl_embeddings l ! j) q))
             (filter (\<lambda>j. js_ge (cosineSimilarity vm (vl_embeddings l ! j) q) minScore)
                [i ..< length (vl_embeddings l)]))
       matches"
proof (induction vm l q minScore matches i rule: search_loop.induct)
  case (1 vm this other minScore matches i)
  show ?case
  proof (cases "i < length (vl_embeddings this)")
    case False
    then show ?thesis by (subst search_loop.simps) simp
  next
    case True
    then have upt: "[i ..< length (vl_embeddings this)] = i # [i + 1 ..< length (vl_embeddings this)]"
      by (simp add: upt_conv_Cons)
    show ?thesis
    proof (cases "js_ge (cosineSimilarity vm (vl_embeddings this ! i) other) minScore")
      case False
      then show ?thesis using True "1.IH"(2) [OF True refl False]
        by (subst search_loop.simps) (simp add: upt)
    next
      case ge: True
      show ?thesis
        using True ge "1.IH"(1) [OF True refl ge]
        by (subst search_loop.simps) (simp add: upt split: option.splits sum.splits)
    qed
  qed
qed

text \<open>
  \<open>nearest\<close> when some similarity reaches \<open>Number.MIN_VALUE\<close>: the scan returns the item at
  the greatest index among those that no similarity exceeds.
\<close>

lemma nearest_loop_inv:
  assumes "i \<le> length embs"
    and "(k = - 1 \<and> b = MIN_VALUE \<and> (\<forall>j < i. \<not> js_ge (cosineSimilarity vm (embs ! j) q) MIN_VALUE)) \<or>
         (0 \<le> k \<and> nat k < i \<and> b = cosineSimilarity vm (embs ! nat k) q \<and> js_ge b MIN_VALUE \<and>
          (\<forall>j < i. \<not> js_gt (cosineSimilarity vm (embs ! j) q) b) \<and>
          (\<forall>j < i. nat k < j \<longrightarrow> \<not> js_ge (cosineSimilarity vm (embs ! j) q) b))"
  shows "\<exists>b' k'. nearest_loop vm embs q b k i = (b', k') \<and>
         ((k' = - 1 \<and> (\<forall>j < length embs. \<not> js_ge (cosineSimilarity vm (embs ! j) q) MIN_VALUE)) \<or>
          (0 \<le> k' \<and> nat k' < length embs \<and> b' = cosineSimilarity vm (embs ! nat k') q \<and>
           js_ge b' MIN_VALUE \<and>
           (\<forall>j < length embs. \<not> js_gt (cosineSimilarity vm (embs ! j) q) b') \<and>
           (\<forall>j < length embs. nat k' < j \<longrightarrow> \<not> js_ge (cosineSimilarity vm (embs ! j) q) b')))"
  using assms
proof (induction vm embs q b k i rule: nearest_loop.induct)
  case (1 vm embs other bestScore iNearest i)
  let ?sim = "\<lambda>j. cosineSimilarity vm (embs ! j) other"
  show ?case
  proof (cases "i < length embs")
    case False
    with "1.prems" have "i = length embs" by simp
    with "1.prems"(2) show ?thesis by (subst nearest_loop.simps) auto
  next
    case True
    show ?thesis
    proof (cases "js_ge (?sim i) bestScore")
      case ge: True
      have min: "js_ge (?sim i) MIN_VALUE"
        using "1.prems"(2) ge by (auto intro: js_ge_trans)
      have below: "\<not> js_gt (?sim j) (?sim i)" if "j < i + 1" for j
      proof (cases "j = i")
        case True
        then show ?thesis by (simp add: js_gt_irrefl)
      next
        case False
        with that have "j < i" by simp
        then have "\<not> js_gt (?sim j) bestScore"
          using "1.prems"(2) by (auto dest: js_gt_ge)
        then show ?thesis using ge by (rule js_not_gt_ge)
      qed
      have "(int i = - 1 \<and> ?sim i = MIN_VALUE \<and> (\<forall>j < i + 1. \<not> js_ge (?sim j) MIN_VALUE)) \<or>
            (0 \<le> int i \<and> nat (int i) < i + 1 \<and> ?sim i = ?sim (nat (int i)) \<and> js_ge (?sim i) MIN_VALUE \<and>
             (\<forall>j < i + 1. \<not> js_gt (?sim j) (?sim i)) \<and>
             (\<forall>j < i + 1. nat (int i) < j \<longrightarrow> \<not> js_ge (?sim j) (?sim i)))"
        using min below by auto
      from "1.IH"(1) [OF True refl ge _ this] True ge show ?thesis
        by (subst nearest_loop.simps) simp
    next
      case lt: False
      have "(iNearest = - 1 \<and> bestScore = MIN_VALUE \<and> (\<forall>j < i + 1. \<not> js_ge (?sim j) MIN_VALUE)) \<or>
            (0 \<le> iNearest \<and> nat iNearest < i + 1 \<and> bestScore = ?sim (nat iNearest) \<and>
             js_ge bestScore MIN_VALUE \<and> (\<forall>j < i + 1. \<not> js_gt (?sim j) bestScore) \<and>
             (\<forall>j < i + 1. nat iNearest < j \<longrightarrow> \<not> js_ge (?sim j) bestScore))"
        using "1.prems"(2) lt by (auto simp: less_Suc_eq dest: js_gt_ge)
      from "1.IH"(2) [OF True refl lt _ this] True lt show ?thesis
        by (subst nearest_loop.simps) simp
    qed
  qed
qed

lemma nearest_greatest_maximal:
  assumes len: "length (vl_items l) = length (vl_embeddings l)"
    and some: "\<exists>j < length (vl_embeddings l).
                 js_ge (cosineSimilarity vm (vl_embeddings l ! j) q) MIN_VALUE"
  shows "\<exists>k < length (vl_items l). nearest vm l q = Some (vl_items l ! k) \<and>
           (\<forall>j < length (vl_embeddings l).
              \<not> js_gt (cosineSimilarity vm (vl_embeddings l ! j) q)
                      (cosineSimilarity vm (vl_embeddings l ! k) q)) \<and>
           (\<forall>j < length (vl_embeddings l). k < j \<longrightarrow>
              \<not> js_ge (cosineSimilarity vm (vl_embeddings l ! j) q)
                      (cosineSimilarity vm (vl_embeddings l ! k) q))"
proof -
  from nearest_loop_inv [of 0 "vl_embeddings l" "- 1" MIN_VALUE vm q]
  obtain b' k' where r: "nearest_loop vm (vl_embeddings l) q MIN_VALUE (- 1) 0 = (b', k')"
    "(k' = - 1 \<and> (\<forall>j < length (vl_embeddings l).
         \<not> js_ge (cosineSimilarity vm (vl_embeddings l ! j) q) MIN_VALUE)) \<or>
     (0 \<le> k' \<and> nat k' < length (vl_embeddings l) \<and> b' = cosineSimilarity vm (vl_embeddings l ! nat k') q \<and>
      js_ge b' MIN_VALUE \<and>
      (\<forall>j < length (vl_embeddings l). \<not> js_gt (cosineSimilarity vm (vl_embeddings l ! j) q) b') \<and>
      (\<forall>j < length (vl_embeddings l). nat k' < j \<longrightarrow>
         \<not> js_ge (cosineSimilarity vm (vl_embeddings l ! j) q) b'))"
    by auto
  from r(2) some have k: "0 \<le> k'" "nat k' < length (vl_embeddings l)"
    "b' = cosineSimilarity vm (vl_embeddings l ! nat k') q"
    "\<forall>j < length (vl_embeddings l). \<not> js_gt (cosineSimilarity vm (vl_embeddings l ! j) q) b'"
    "\<forall>j < length (vl_embeddings l). nat k' < j \<longrightarrow>
       \<not> js_ge (cosineSimilarity vm (vl_embeddings l ! j) q) b'"
    by auto
  have "nearest vm l q = Some (vl_items l ! nat k')"
    using r(1) k(1,2) len by (simp add: nearest_def item_at_def)
  with k len show ?thesis by (intro exI [of _ "nat k'"]) simp
qed

text \<open>
  Claim C10. When every stored embedding has a cosine similarity to the query strictly
  below \<open>Number.MIN_VALUE\<close>, the test \<open>score >= bestScore\<close> never succeeds, the best index
  stays at -1, and \<open>nearest\<close> returns \<open>undefined\<close>.
\<close>

theorem nearest_undefined_below_MIN_VALUE:
  "\<forall>j < length (vl_embeddings l).
      js_lt (cosineSimilarity vm (vl_embeddings l ! j) q) MIN_VALUE \<Longrightarrow>
     nearest vm l q = None"
  using nearest_loop_below [of "vl_embeddings l" vm q MIN_VALUE "- 1" 0]
  by (simp add: nearest_def item_at_def js_lt_not_ge)

theorem nearest_undefined_below_MIN_VALUE_witness:
  "length (vl_embeddings list_x) = 1
   \<and> js_lt (cosineSimilarity spec_vectormath (vl_embeddings list_x ! 0) (Embedding_new [0, 1, 0]))
       MIN_VALUE
   \<and> nearest spec_vectormath list_x (Embedding_new [0, 1, 0]) = None"
proof -
  have h: "\<forall>j < length (vl_embeddings list_x).
        js_lt (cosineSimilarity spec_vectormath (vl_embeddings list_x ! j) (Embedding_new [0, 1, 0]))
          MIN_VALUE"
    by (simp add: list_x_eq cosineSimilarity_def Embedding_new_def spec_vectormath_def
        spec_length_def spec_dot_def MIN_VALUE_def)
  from nearest_undefined_below_MIN_VALUE [OF h] h show ?thesis
    by (simp add: list_x_eq)
qed

text \<open>
  Claim C7. The list holding the one item \<open>x\<close> with embedding \<open>(1, 0, 0)\<close> is not empty,
  and the similarity of its embedding to the query \<open>(0, 1, 0)\<close> is 0, the maximum over the
  list; \<open>nearest\<close> returns \<open>undefined\<close> and not \<open>x\<close>, since 0 is below the initial best score
  \<open>Number.MIN_VALUE\<close>.
\<close>

theorem nearest_orthogonal_query_undefined:
  "vl_items list_x = [''x'']
   \<and> cosineSimilarity spec_vectormath (vl_embeddings list_x ! 0) (Embedding_new [0, 1, 0]) = Fin 0
   \<and> nearest spec_vectormath list_x (Embedding_new [0, 1, 0]) = None"
  by (simp add: list_x_eq nearest_def nearest_loop.simps item_at_def cosineSimilarity_def
      Embedding_new_def spec_vectormath_def spec_length_def spec_dot_def MIN_VALUE_def js_ge_def)

text \<open>
  Claim C6. With the default threshold \<open>Number.MIN_VALUE\<close>, \<open>searchTopN\<close> over the same list
  and query feeds nothing to the collection: the item of similarity 0 is filtered out and
  the result is the empty collection.
\<close>

theorem searchTopN_default_filters_zero_score:
  "searchTopN spec_vectormath list_x (Embedding_new [0, 1, 0]) 1 default_minScore
     = Some (Inr (Inr (fresh 1)))
   \<and> search spec_vectormath list_x (Embedding_new [0, 1, 0]) (fresh 1) default_minScore
     = Some (Inr (fresh 1))"
  by (simp add: list_x_eq searchTopN_def search_def search_loop.simps TopNCollection_new_def
      default_minScore_def cosineSimilarity_def Embedding_new_def spec_vectormath_def
      spec_length_def spec_dot_def MIN_VALUE_def js_ge_def)

section \<open>TopNCollection: sequences of \<open>add\<close>\<close>

lemma fresh_structInv: "structInv (fresh m)"
  by (simp add: structInv_def fresh_def arr_push_def)

lemma fresh_heapInv: "heapInv (fresh m)"
  by (simp add: heapInv_def structInv_def fresh_def arr_push_def heapArr_def clean_def cscore_def
      sentinel_def MIN_VALUE_def)

lemma adds_snoc:
  "adds (cs @ [c]) s =
     (case adds cs s of
        None \<Rightarrow> None
      | Some (Inl e) \<Rightarrow> Some (Inl e)
      | Some (Inr s1) \<Rightarrow> add (fst c) (snd c) s1)"
  by (induction cs arbitrary: s) (auto split: option.splits sum.splits)

lemma heapInv_heapProperty:
  assumes "heapInv s"
  shows "heapProperty s"
  unfolding heapProperty_def
proof (intro ballI conjI impI)
  let ?xs = "tn_items s" and ?k = "tn_count s"
  from assms have len: "length ?xs = ?k + 1" and full: "None \<notin> set ?xs"
    and cl: "clean ?xs" and heap: "heapArr ?xs ?k"
    by (simp_all add: heapInv_def structInv_def)
  have le: "cell_le (arr_get ?xs (c div 2)) (arr_get ?xs c)" if c: "2 \<le> c" "c \<le> ?k" for c
  proof -
    have b: "c < length ?xs" "c div 2 < length ?xs" using c len by auto
    moreover from this obtain a b where "?xs ! (c div 2) = Some a" "?xs ! c = Some b"
      using full_nth [OF full] by blast
    moreover have "sc ?xs (c div 2) \<le> sc ?xs c" using heap c by (simp add: heapArr_def)
    then have "js_le (sc ?xs (c div 2)) (sc ?xs c)"
      using clean_sc [OF cl b(1)] clean_sc [OF cl b(2)] by (simp add: js_le_iff)
    ultimately show ?thesis by (simp add: cell_le_def arr_get_def sc_def cscore_def)
  qed
  fix i assume i: "i \<in> {1 .. ?k}"
  { assume "2 * i \<le> ?k"
    then show "cell_le (arr_get ?xs i) (arr_get ?xs (2 * i))"
      using le [of "2 * i"] i by simp }
  { assume "2 * i + 1 \<le> ?k"
    then show "cell_le (arr_get ?xs i) (arr_get ?xs (2 * i + 1))"
      using le [of "2 * i + 1"] i by simp }
qed

lemma occupancy_size: "structInv s \<Longrightarrow> size (occupancy s) = tn_count s"
  by (simp add: structInv_def occupancy_def)

lemma occupancy_nth:
  assumes "structInv s" "r \<in># occupancy s"
  shows "\<exists>j. 1 \<le> j \<and> j \<le> tn_count s \<and> r = tn_items s ! j"
proof -
  from assms(1) have len: "length (tn_items s) = tn_count s + 1" by (simp add: structInv_def)
  then have "take (tn_count s) (tl (tn_items s)) = tl (tn_items s)" by simp
  with assms(2) have "r \<in> set (tl (tn_items s))" by (simp add: occupancy_def)
  then obtain i where i: "i < length (tl (tn_items s))" "r = tl (tn_items s) ! i"
    by (auto simp: in_set_conv_nth)
  then have "r = tn_items s ! (i + 1)" using len by (simp add: nth_tl)
  with i(1) len show ?thesis by (intro exI [of _ "i + 1"]) simp
qed

lemma top_in_occupancy:
  assumes "structInv s" "0 < tn_count s" "top s = Some t"
  shows "Some t \<in># occupancy s"
proof -
  from assms(1) have len: "length (tn_items s) = tn_count s + 1" by (simp add: structInv_def)
  then have "take (tn_count s) (tl (tn_items s)) = tl (tn_items s)" by simp
  moreover have "tl (tn_items s) ! 0 = Some t"
    using assms(2,3) len by (simp add: top_def arr_get_def nth_tl)
  moreover have "0 < length (tl (tn_items s))" using assms(2) len by simp
  ultimately show ?thesis unfolding occupancy_def by (metis nth_mem set_mset_mset)
qed

lemma top_least:
  assumes "heapInv s" "top s = Some t" "r \<in># occupancy s"
  shows "score t \<le> cscore r"
proof -
  from assms(1) have st: "structInv s" and heap: "heapArr (tn_items s) (tn_count s)"
    by (simp_all add: heapInv_def)
  from occupancy_nth [OF st assms(3)] obtain j
    where j: "1 \<le> j" "j \<le> tn_count s" "r = tn_items s ! j" by blast
  from st have len: "length (tn_items s) = tn_count s + 1" by (simp add: structInv_def)
  have "tn_items s ! 1 = Some t" using assms(2) j len by (simp add: top_def arr_get_def)
  then have "sc (tn_items s) 1 = score t" by (simp add: sc_def cscore_def)
  moreover have "sc (tn_items s) 1 \<le> sc (tn_items s) j" by (rule heapArr_root_min [OF heap j(1,2)])
  ultimately show ?thesis using j(3) by (simp add: sc_def)
qed

lemma adds_fresh:
  assumes m: "0 < m"
  shows "\<exists>s. adds cs (fresh m) = Some (Inr s) \<and> structInv s \<and> tn_maxCount s = m \<and>
           tn_count s = min (length cs) m \<and> (NaN \<notin> snd ` set cs \<longrightarrow> heapInv s)"
proof (induction cs rule: rev_induct)
  case Nil
  show ?case using fresh_heapInv [of m] fresh_structInv [of m] by (simp add: fresh_def)
next
  case (snoc c cs)
  then obtain s where s: "adds cs (fresh m) = Some (Inr s)" "structInv s" "tn_maxCount s = m"
    "tn_count s = min (length cs) m" "NaN \<notin> snd ` set cs \<longrightarrow> heapInv s" by blast
  have keep: "heapInv s \<and> snd c \<noteq> NaN" if "NaN \<notin> snd ` set (cs @ [c])"
    using that s(5) by auto
  show ?case
  proof (cases "tn_count s = tn_maxCount s")
    case False
    from add_below_capacity [OF s(2) False, of "fst c" "snd c"] obtain s'
      where "add (fst c) (snd c) s = Some (Inr s')" "structInv s'" "tn_maxCount s' = tn_maxCount s"
        "tn_count s' = tn_count s + 1" "heapInv s \<and> snd c \<noteq> NaN \<longrightarrow> heapInv s'" by blast
    then show ?thesis using s False keep by (intro exI [of _ s']) (auto simp: adds_snoc)
  next
    case True
    from add_at_capacity [OF s(2) True, of "snd c" "fst c"] m s(3) obtain t where t: "top s = Some t"
      "js_lt (snd c) (score t) \<longrightarrow> add (fst c) (snd c) s = Some (Inr s)"
      "\<not> js_lt (snd c) (score t) \<longrightarrow>
         (\<exists>s'. add (fst c) (snd c) s = Some (Inr s') \<and> structInv s' \<and> tn_maxCount s' = tn_maxCount s \<and>
            tn_count s' = tn_count s \<and> tn_items s' ! 0 = tn_items s ! 0 \<and>
            add_mset (Some t) (occupancy s') = add_mset (cellOf (fst c, snd c)) (occupancy s) \<and>
            (heapInv s \<and> snd c \<noteq> NaN \<longrightarrow> heapInv s'))"
      by auto
    show ?thesis
    proof (cases "js_lt (snd c) (score t)")
      case lt: True
      then show ?thesis using t(2) s True keep by (intro exI [of _ s]) (auto simp: adds_snoc)
    next
      case False
      with t(3) obtain s' where "add (fst c) (snd c) s = Some (Inr s')" "structInv s'"
        "tn_maxCount s' = tn_maxCount s" "tn_count s' = tn_count s"
        "heapInv s \<and> snd c \<noteq> NaN \<longrightarrow> heapInv s'" by blast
      then show ?thesis using s True keep by (intro exI [of _ s']) (auto simp: adds_snoc)
    qed
  qed
qed

lemma new_fresh: "TopNCollection_new m = Inr c \<longleftrightarrow> 0 < m \<and> c = fresh m"
  by (auto simp: TopNCollection_new_def)

lemmas heap_eval = add_def top_def removeTop_def downHeap_def downHeap_loop.simps smallerChild_def
  upHeap_def upHeap_loop.simps arr_defs fresh_def js_gt_def js_ge_def

text \<open>
  Claim C2, as stated, fails: no comparison with NaN is true, so \<open>upHeap\<close> moves nothing
  past a NaN. In a collection of capacity 2, adding \<open>A\<close> with score NaN and then \<open>B\<close> with
  score 1 leaves \<open>A\<close> at position 1 and \<open>B\<close> at position 2, and \<open>NaN <= 1\<close> is false.
\<close>

theorem adds_NaN_breaks_heap_property:
  "adds [(''A'', NaN), (''B'', Fin 1)] (fresh 2) =
     Some (Inr \<lparr>tn_items = [Some sentinel, Some \<lparr>val = Some ''A'', score = NaN\<rparr>,
                  Some \<lparr>val = Some ''B'', score = Fin 1\<rparr>],
                tn_count = 2, tn_maxCount = 2\<rparr>)
   \<and> \<not> heapProperty \<lparr>tn_items = [Some sentinel, Some \<lparr>val = Some ''A'', score = NaN\<rparr>,
                  Some \<lparr>val = Some ''B'', score = Fin 1\<rparr>],
                tn_count = 2, tn_maxCount = 2 :: nat\<rparr>"
  by (simp add: heap_eval heapProperty_def cell_le_def) (rule bexI [of _ "Suc 0"]; simp)

text \<open>
  Claim C2, amended. From a collection made by the constructor, any sequence of \<open>add\<close> calls
  in which no score is NaN runs without an exception and ends in a collection with the
  heap property: for every position \<open>i\<close> in \<open>[1, count]\<close>, the score at \<open>i\<close> is at most the
  score at \<open>2i\<close> and at \<open>2i + 1\<close>, whenever these positions are within \<open>[1, count]\<close>.
\<close>

theorem adds_heap_property:
  "TopNCollection_new m = Inr c \<Longrightarrow> NaN \<notin> snd ` set cs \<Longrightarrow>
     \<exists>s. adds cs c = Some (Inr s) \<and> heapProperty s"
  using adds_fresh [of m cs] by (auto simp: new_fresh intro: heapInv_heapProperty)

theorem adds_heap_property_witness:
  "TopNCollection_new 3 = Inr (fresh 3 :: string TopNCollection)
   \<and> NaN \<notin> snd ` set [(''A'', Fin 1), (''B'', Fin 5), (''C'', Fin 3), (''D'', Fin 9), (''E'', Fin 2)]
   \<and> adds [(''A'', Fin 1), (''B'', Fin 5), (''C'', Fin 3), (''D'', Fin 9), (''E'', Fin 2)] (fresh 3) =
       Some (Inr \<lparr>tn_items = [Some sentinel, Some \<lparr>val = Some ''C'', score = Fin 3\<rparr>,
                    Some \<lparr>val = Some ''B'', score = Fin 5\<rparr>, Some \<lparr>val = Some ''D'', score = Fin 9\<rparr>],
                  tn_count = 3, tn_maxCount = 3\<rparr>)
   \<and> heapProperty \<lparr>tn_items = [Some sentinel, Some \<lparr>val = Some ''C'', score = Fin 3\<rparr>,
                    Some \<lparr>val = Some ''B'', score = Fin 5\<rparr>, Some \<lparr>val = Some ''D'', score = Fin 9\<rparr>],
                  tn_count = 3, tn_maxCount = 3\<rparr>"
proof -
  let ?cs = "[(''A'', Fin 1), (''B'', Fin 5), (''C'', Fin 3), (''D'', Fin 9), (''E'', Fin 2)]"
  have n: "TopNCollection_new 3 = Inr (fresh 3 :: string TopNCollection)"
    by (simp add: TopNCollection_new_def)
  have c: "NaN \<notin> snd ` set ?cs" by simp
  have e: "adds ?cs (fresh 3) =
       Some (Inr \<lparr>tn_items = [Some sentinel, Some \<lparr>val = Some ''C'', score = Fin 3\<rparr>,
                    Some \<lparr>val = Some ''B'', score = Fin 5\<rparr>, Some \<lparr>val = Some ''D'', score = Fin 9\<rparr>],
                  tn_count = 3, tn_maxCount = 3\<rparr>)"
    by (simp add: heap_eval)
  from adds_heap_property [OF n c]
  show ?thesis using n c e by simp
qed

text \<open>
  Claim C4, as stated, fails: in the full collection of capacity 1 that holds \<open>A\<close> with
  score 5, adding \<open>B\<close> with the equal score 5 evicts \<open>A\<close> and retains \<open>B\<close>.
\<close>

theorem add_equal_score_replaces:
  "adds [(''A'', Fin 5)] (fresh 1) =
     Some (Inr \<lparr>tn_items = [Some sentinel, Some \<lparr>val = Some ''A'', score = Fin 5\<rparr>],
                tn_count = 1, tn_maxCount = 1\<rparr>)
   \<and> add ''B'' (Fin 5) \<lparr>tn_items = [Some sentinel, Some \<lparr>val = Some ''A'', score = Fin 5\<rparr>],
                   tn_count = 1, tn_maxCount = 1\<rparr> =
     Some (Inr \<lparr>tn_items = [Some sentinel, Some \<lparr>val = Some ''B'', score = Fin 5\<rparr>],
                tn_count = 1, tn_maxCount = 1\<rparr>)"
  by (simp add: heap_eval)

lemma reachable_structInv:
  assumes "TopNCollection_new m = Inr c" "adds cs c = Some (Inr s)"
  shows "structInv s \<and> tn_maxCount s = m \<and> 0 < m \<and> tn_count s = min (length cs) m"
  using assms adds_fresh [of m cs] by (auto simp: new_fresh)

text \<open>
  Claim C4, amended. In a collection at capacity reached by \<open>add\<close> calls, a candidate whose
  score is strictly below the current minimum \<open>top.score\<close> is rejected and nothing changes.
  A candidate whose score equals \<open>top.score\<close> is not rejected: it takes the place of the
  object at the top, so the count and the multiset of retained scores are unchanged while
  the membership changes.
\<close>

theorem add_at_capacity_below_or_equal_top:
  assumes "TopNCollection_new m = Inr c" "adds cs c = Some (Inr s)" "tn_count s = tn_maxCount s"
  shows "\<exists>t. top s = Some t \<and>
           (js_lt x (score t) \<longrightarrow> add v x s = Some (Inr s)) \<and>
           (x = score t \<longrightarrow>
              (\<exists>s'. add v x s = Some (Inr s') \<and> tn_count s' = tn_count s \<and>
                 occupancy s' = add_mset (cellOf (v, x)) (occupancy s - {#Some t#}) \<and>
                 image_mset cscore (occupancy s') = image_mset cscore (occupancy s)))"
proof -
  from reachable_structInv [OF assms(1,2)] have inv: "structInv s" and m: "0 < tn_maxCount s"
    by simp_all
  from add_at_capacity [OF inv assms(3) m, of x v] obtain t where t: "top s = Some t"
    "js_lt x (score t) \<longrightarrow> add v x s = Some (Inr s)"
    "\<not> js_lt x (score t) \<longrightarrow>
       (\<exists>s'. add v x s = Some (Inr s') \<and> structInv s' \<and> tn_maxCount s' = tn_maxCount s \<and>
          tn_count s' = tn_count s \<and> tn_items s' ! 0 = tn_items s ! 0 \<and>
          add_mset (Some t) (occupancy s') = add_mset (cellOf (v, x)) (occupancy s) \<and>
          (heapInv s \<and> x \<noteq> NaN \<longrightarrow> heapInv s'))"
    by blast
  have mem: "Some t \<in># occupancy s"
    using top_in_occupancy [OF inv _ t(1)] assms(3) m by simp
  have eq: "\<exists>s'. add v x s = Some (Inr s') \<and> tn_count s' = tn_count s \<and>
                 occupancy s' = add_mset (cellOf (v, x)) (occupancy s - {#Some t#}) \<and>
                 image_mset cscore (occupancy s') = image_mset cscore (occupancy s)"
    if x: "x = score t"
  proof -
    have "\<not> js_lt x (score t)" using x by (cases "score t") simp_all
    with t(3) obtain s' where s': "add v x s = Some (Inr s')" "tn_count s' = tn_count s"
      "add_mset (Some t) (occupancy s') = add_mset (cellOf (v, x)) (occupancy s)" by auto
    from s'(3) have "occupancy s' = add_mset (cellOf (v, x)) (occupancy s) - {#Some t#}"
      by (metis add_mset_remove_trivial)
    also have "\<dots> = add_mset (cellOf (v, x)) (occupancy s - {#Some t#})"
      using mem by simp
    finally have a: "occupancy s' = add_mset (cellOf (v, x)) (occupancy s - {#Some t#})" .
    have "image_mset cscore (add_mset (Some t) (occupancy s'))
          = image_mset cscore (add_mset (cellOf (v, x)) (occupancy s))"
      using s'(3) by simp
    then have b: "image_mset cscore (occupancy s') = image_mset cscore (occupancy s)"
      using x by (simp add: cscore_def cellOf_def)
    from s'(1,2) a b show ?thesis by blast
  qed
  from t(1,2) eq show ?thesis by blast
qed

theorem add_at_capacity_below_or_equal_top_witness:
  "TopNCollection_new 1 = Inr (fresh 1 :: string TopNCollection)
   \<and> adds [(''A'', Fin 5)] (fresh 1) =
       Some (Inr \<lparr>tn_items = [Some sentinel, Some \<lparr>val = Some ''A'', score = Fin 5\<rparr>],
                  tn_count = 1, tn_maxCount = 1\<rparr>)
   \<and> top \<lparr>tn_items = [Some sentinel, Some \<lparr>val = Some ''A'', score = Fin 5\<rparr>],
           tn_count = 1, tn_maxCount = 1 :: nat\<rparr> = Some \<lparr>val = Some ''A'', score = Fin 5\<rparr>
   \<and> add ''Z'' (Fin 4) \<lparr>tn_items = [Some sentinel, Some \<lparr>val = Some ''A'', score = Fin 5\<rparr>],
                   tn_count = 1, tn_maxCount = 1\<rparr> =
       Some (Inr \<lparr>tn_items = [Some sentinel, Some \<lparr>val = Some ''A'', score = Fin 5\<rparr>],
                  tn_count = 1, tn_maxCount = 1\<rparr>)
   \<and> (\<exists>s'. add ''B'' (Fin 5) \<lparr>tn_items = [Some sentinel, Some \<lparr>val = Some ''A'', score = Fin 5\<rparr>],
                         tn_count = 1, tn_maxCount = 1\<rparr> = Some (Inr s')
          \<and> tn_count s' = 1
          \<and> occupancy s' = {#cellOf (''B'', Fin 5)#})"
proof -
  let ?sA = "\<lparr>tn_items = [Some sentinel, Some \<lparr>val = Some ''A'', score = Fin 5\<rparr>],
              tn_count = 1, tn_maxCount = 1\<rparr> :: string TopNCollection"
  have n: "TopNCollection_new 1 = Inr (fresh 1 :: string TopNCollection)"
    by (simp add: TopNCollection_new_def)
  have e: "adds [(''A'', Fin 5)] (fresh 1) = Some (Inr ?sA)"
    by (simp add: heap_eval)
  have c: "tn_count ?sA = tn_maxCount ?sA" by simp
  have t: "top ?sA = Some \<lparr>val = Some ''A'', score = Fin 5\<rparr>" by (simp add: top_def arr_get_def)
  have o: "occupancy ?sA = {#Some \<lparr>val = Some ''A'', score = Fin 5\<rparr>#}" by (simp add: occupancy_def)
  from add_at_capacity_below_or_equal_top [OF n e c, of "Fin 4" "''Z''"] t
  have low: "add ''Z'' (Fin 4) ?sA = Some (Inr ?sA)" by simp
  from add_at_capacity_below_or_equal_top [OF n e c, of "Fin 5" "''B''"] t o
  have tie: "\<exists>s'. add ''B'' (Fin 5) ?sA = Some (Inr s') \<and> tn_count s' = 1 \<and>
                occupancy s' = {#cellOf (''B'', Fin 5)#}" by simp blast
  from n e t low tie show ?thesis by blast
qed

section \<open>TopNCollection: bounded retention\<close>

lemma occupancy_not_NaN:
  assumes "heapInv s" "r \<in># occupancy s"
  shows "cscore r \<noteq> NaN"
proof -
  from assms(1) have st: "structInv s" and cl: "clean (tn_items s)" by (simp_all add: heapInv_def)
  from occupancy_nth [OF st assms(2)] obtain j
    where j: "1 \<le> j" "j \<le> tn_count s" "r = tn_items s ! j" by blast
  from st have "j < length (tn_items s)" using j(2) by (simp add: structInv_def)
  then show ?thesis using clean_nth [OF cl] j(3) by simp
qed

lemma js_lt_asym: "js_lt a b \<Longrightarrow> \<not> js_lt b a"
  by (cases a; cases b) simp_all

lemma adds_retention:
  assumes m: "0 < m"
  shows "\<exists>s D. adds cs (fresh m) = Some (Inr s) \<and> occupancy s + D = mset (map cellOf cs) \<and>
           (NaN \<notin> snd ` set cs \<longrightarrow> (\<forall>r \<in># occupancy s. \<forall>d \<in># D. cscore d \<le> cscore r))"
proof (induction cs rule: rev_induct)
  case Nil
  show ?case by (simp add: fresh_def occupancy_def)
next
  case (snoc c cs)
  then obtain s D where s: "adds cs (fresh m) = Some (Inr s)"
    and D: "occupancy s + D = mset (map cellOf cs)"
    and le: "NaN \<notin> snd ` set cs \<longrightarrow> (\<forall>r \<in># occupancy s. \<forall>d \<in># D. cscore d \<le> cscore r)" by blast
  from adds_fresh [OF m, of cs] s have inv: "structInv s" and mx: "tn_maxCount s = m"
    and cnt: "tn_count s = min (length cs) m" and hp: "NaN \<notin> snd ` set cs \<longrightarrow> heapInv s" by auto
  have cell: "cellOf (fst c, snd c) = cellOf c" by simp
  have new: "cscore (cellOf c) = snd c" by (simp add: cscore_def cellOf_def)
  show ?case
  proof (cases "tn_count s = tn_maxCount s")
    case False
    from add_below_capacity [OF inv False, of "fst c" "snd c"] obtain s'
      where s': "add (fst c) (snd c) s = Some (Inr s')"
        "occupancy s' = add_mset (cellOf c) (occupancy s)" by (auto simp: cell)
    have "size (occupancy s) + size D = length cs"
      using D by (metis length_map size_mset size_union)
    then have "D = {#}" using False cnt mx occupancy_size [OF inv] by auto
    then show ?thesis using s s' D
      by (intro exI [of _ s'] exI [of _ "{#}"]) (simp add: adds_snoc)
  next
    case True
    from add_at_capacity [OF inv True, of "snd c" "fst c"] m mx obtain t where t: "top s = Some t"
      "js_lt (snd c) (score t) \<longrightarrow> add (fst c) (snd c) s = Some (Inr s)"
      "\<not> js_lt (snd c) (score t) \<longrightarrow>
         (\<exists>s'. add (fst c) (snd c) s = Some (Inr s') \<and> structInv s' \<and> tn_maxCount s' = tn_maxCount s \<and>
            tn_count s' = tn_count s \<and> tn_items s' ! 0 = tn_items s ! 0 \<and>
            add_mset (Some t) (occupancy s') = add_mset (cellOf c) (occupancy s) \<and>
            (heapInv s \<and> snd c \<noteq> NaN \<longrightarrow> heapInv s'))"
      by (auto simp: cell)
    have mem: "Some t \<in># occupancy s"
      using top_in_occupancy [OF inv _ t(1)] True m mx by simp
    have old: "cscore (Some t) = score t" by (simp add: cscore_def)
    show ?thesis
    proof (cases "js_lt (snd c) (score t)")
      case lt: True
      have "occupancy s + add_mset (cellOf c) D = mset (map cellOf (cs @ [c]))"
        using D by simp
      moreover have "\<forall>r \<in># occupancy s. \<forall>d \<in># add_mset (cellOf c) D. cscore d \<le> cscore r"
        if clean: "NaN \<notin> snd ` set (cs @ [c])"
      proof -
        from clean hp le have h: "heapInv s"
          and le': "\<forall>r \<in># occupancy s. \<forall>d \<in># D. cscore d \<le> cscore r" by auto
        have ct: "snd c < score t" using lt js_lt_not_NaN [OF lt] by (simp add: js_lt_iff)
        have "snd c \<le> cscore r" if "r \<in># occupancy s" for r
          using top_least [OF h t(1) that] ct by simp
        then show ?thesis using le' new by simp
      qed
      ultimately show ?thesis using s t(2) lt
        by (intro exI [of _ s] exI [of _ "add_mset (cellOf c) D"]) (simp add: adds_snoc)
    next
      case False
      with t(3) obtain s' where s': "add (fst c) (snd c) s = Some (Inr s')"
        "add_mset (Some t) (occupancy s') = add_mset (cellOf c) (occupancy s)" by blast
      have "add_mset (Some t) (occupancy s') + D = add_mset (cellOf c) (occupancy s) + D"
        using s'(2) by simp
      then have "occupancy s' + add_mset (Some t) D = mset (map cellOf (cs @ [c]))"
        using D by simp
      moreover have "\<forall>r \<in># occupancy s'. \<forall>d \<in># add_mset (Some t) D. cscore d \<le> cscore r"
        if clean: "NaN \<notin> snd ` set (cs @ [c])"
      proof (intro ballI)
        fix r d assume r: "r \<in># occupancy s'" and d: "d \<in># add_mset (Some t) D"
        from clean hp le have h: "heapInv s" and cN: "snd c \<noteq> NaN"
          and le': "\<forall>r \<in># occupancy s. \<forall>d \<in># D. cscore d \<le> cscore r" by auto
        have "score t \<noteq> NaN" using occupancy_not_NaN [OF h mem] old by simp
        then have tc: "score t \<le> snd c" using False cN by (simp add: js_lt_iff not_less)
        from r have "r \<in># add_mset (cellOf c) (occupancy s)"
          by (metis s'(2) union_single_eq_member insert_iff set_mset_add_mset_insert)
        then have r': "r = cellOf c \<or> r \<in># occupancy s" by auto
        from d have d': "d = Some t \<or> d \<in># D" by auto
        have dt: "cscore d \<le> score t" using d' le' mem old by auto
        from r' show "cscore d \<le> cscore r"
        proof
          assume "r = cellOf c"
          then show ?thesis using dt tc new by simp
        next
          assume "r \<in># occupancy s"
          then show ?thesis using dt top_least [OF h t(1), of r] by simp
        qed
      qed
      ultimately show ?thesis using s s'(1)
        by (intro exI [of _ s'] exI [of _ "add_mset (Some t) D"]) (simp add: adds_snoc)
    qed
  qed
qed

lemma adds_increasing:
  assumes m: "0 < m"
  shows "sorted_wrt js_lt (map snd cs) \<Longrightarrow>
         \<exists>s. adds cs (fresh m) = Some (Inr s) \<and>
           occupancy s = mset (map cellOf (drop (length cs - m) cs))"
proof (induction cs rule: rev_induct)
  case Nil
  show ?case by (simp add: fresh_def occupancy_def)
next
  case (snoc c cs)
  from snoc.prems have sorted: "sorted_wrt js_lt (map snd cs)"
    and above: "\<forall>p \<in> set cs. js_lt (snd p) (snd c)"
    by (simp_all add: sorted_wrt_append)
  from snoc.IH [OF sorted] obtain s where s: "adds cs (fresh m) = Some (Inr s)"
    and occ: "occupancy s = mset (map cellOf (drop (length cs - m) cs))" by blast
  from adds_fresh [OF m, of cs] s have inv: "structInv s" and mx: "tn_maxCount s = m"
    and cnt: "tn_count s = min (length cs) m" and hp: "NaN \<notin> snd ` set cs \<longrightarrow> heapInv s" by auto
  have cell: "cellOf (fst c, snd c) = cellOf c" by simp
  show ?case
  proof (cases "tn_count s = tn_maxCount s")
    case False
    from add_below_capacity [OF inv False, of "fst c" "snd c"] obtain s'
      where s': "add (fst c) (snd c) s = Some (Inr s')"
        "occupancy s' = add_mset (cellOf c) (occupancy s)" by (auto simp: cell)
    have "length cs < m" using False cnt mx by auto
    then show ?thesis using s s' occ by (intro exI [of _ s']) (simp add: adds_snoc)
  next
    case True
    then have full: "m \<le> length cs" using cnt mx by auto
    have "NaN \<notin> snd ` set cs"
    proof
      assume "NaN \<in> snd ` set cs"
      then obtain p where "p \<in> set cs" "snd p = NaN" by auto
      with above have "js_lt NaN (snd c)" by force
      then show False by simp
    qed
    with hp have h: "heapInv s" by simp
    let ?k = "length cs - m"
    have k: "?k < length cs" using full m by simp
    let ?f = "cs ! ?k" and ?rest = "drop (Suc ?k) cs"
    have split: "drop ?k cs = ?f # ?rest" using k by (simp add: Cons_nth_drop_Suc)
    from add_at_capacity [OF inv True, of "snd c" "fst c"] m mx obtain t where t: "top s = Some t"
      "\<not> js_lt (snd c) (score t) \<longrightarrow>
         (\<exists>s'. add (fst c) (snd c) s = Some (Inr s') \<and> structInv s' \<and> tn_maxCount s' = tn_maxCount s \<and>
            tn_count s' = tn_count s \<and> tn_items s' ! 0 = tn_items s ! 0 \<and>
            add_mset (Some t) (occupancy s') = add_mset (cellOf c) (occupancy s) \<and>
            (heapInv s \<and> snd c \<noteq> NaN \<longrightarrow> heapInv s'))"
      by (auto simp: cell)
    have mem: "Some t \<in># occupancy s"
      using top_in_occupancy [OF inv _ t(1)] True m mx by simp
    then obtain q where q: "q \<in> set (drop ?k cs)" "Some t = cellOf q"
      using occ by auto
    have tq: "score t = snd q" using q(2) by (simp add: cellOf_def)
    have "q \<in> set cs" using q(1) by (rule in_set_dropD)
    with above have "js_lt (snd q) (snd c)" by simp
    then have "\<not> js_lt (snd c) (score t)" unfolding tq by (rule js_lt_asym)
    with t(2) obtain s' where s': "add (fst c) (snd c) s = Some (Inr s')"
      "add_mset (Some t) (occupancy s') = add_mset (cellOf c) (occupancy s)" by blast
    have "cellOf ?f \<in># occupancy s" using occ split by simp
    then have tf: "score t \<le> snd ?f"
      using top_least [OF h t(1), of "cellOf ?f"] by (simp add: cscore_def cellOf_def)
    have "sorted_wrt js_lt (map snd (?f # ?rest))"
      using sorted split by (metis sorted_wrt_drop drop_map)
    then have rest: "\<forall>p \<in> set ?rest. js_lt (snd ?f) (snd p)" by simp
    have "q = ?f"
    proof (rule ccontr)
      assume "q \<noteq> ?f"
      with q(1) split have "q \<in> set ?rest" by simp
      with rest have l: "js_lt (snd ?f) (snd q)" by simp
      then have "snd ?f < snd q" using js_lt_not_NaN [OF l] by (simp add: js_lt_iff)
      with tf tq show False by simp
    qed
    then have "add_mset (cellOf ?f) (occupancy s')
               = add_mset (cellOf c) (add_mset (cellOf ?f) (mset (map cellOf ?rest)))"
      using s'(2) q(2) occ split by simp
    then have "occupancy s' = add_mset (cellOf c) (mset (map cellOf ?rest))"
      by (simp add: add_mset_commute)
    moreover have "drop (length (cs @ [c]) - m) (cs @ [c]) = ?rest @ [c]"
      using full m by (simp add: Suc_diff_le)
    ultimately show ?thesis using s s'(1) by (intro exI [of _ s']) (simp add: adds_snoc)
  qed
qed

section \<open>TopNCollection: sortDescending\<close>

lemma mset_middle:
  assumes len: "length ys = length xs" and k: "1 \<le> k" "k \<le> length xs"
    and ms: "mset ys = mset xs" and z: "ys ! 0 = xs ! 0"
    and tail: "\<forall>j. k \<le> j \<longrightarrow> ys ! j = xs ! j"
  shows "mset (take (k - 1) (tl ys)) = mset (take (k - 1) (tl xs))"
proof -
  have dr: "drop k ys = drop k xs"
    using len tail by (intro nth_equalityI) simp_all
  have ne: "xs \<noteq> []" "ys \<noteq> []" using k len by auto
  have split: "\<And>zs :: 'a list. zs \<noteq> [] \<Longrightarrow> zs = zs ! 0 # take (k - 1) (tl zs) @ drop k zs"
  proof -
    fix zs :: "'a list" assume "zs \<noteq> []"
    then have "take k zs = zs ! 0 # take (k - 1) (tl zs)"
      using k by (cases zs; cases k) simp_all
    then show "zs = zs ! 0 # take (k - 1) (tl zs) @ drop k zs"
      by (metis append_Cons append_take_drop_id)
  qed
  have "mset ys = add_mset (ys ! 0) (mset (take (k - 1) (tl ys)) + mset (drop k ys))"
    using split [OF ne(2)] by (metis mset.simps(2) mset_append)
  moreover have "mset xs = add_mset (xs ! 0) (mset (take (k - 1) (tl xs)) + mset (drop k xs))"
    using split [OF ne(1)] by (metis mset.simps(2) mset_append)
  ultimately show ?thesis using ms z dr by simp
qed

lemma sortDescending_loop_spec:
  fixes s :: "'a TopNCollection"
  assumes "None \<notin> set xs" "length xs = N + 1" "k \<le> N"
    and "tn_items s = xs" "tn_count s = k"
  shows "\<exists>ys. sortDescending_loop s k = Some (Inr (s\<lparr>tn_items := ys, tn_count := 0\<rparr>)) \<and>
           length ys = N + 1 \<and> None \<notin> set ys \<and> mset ys = mset xs \<and> ys ! 0 = xs ! 0 \<and>
           (clean xs \<and> heapArr xs k \<and>
            (\<forall>j. k < j \<and> j < N \<longrightarrow> sc xs (j + 1) \<le> sc xs j) \<and>
            (\<forall>a. 1 \<le> a \<and> a \<le> k \<and> k < N \<longrightarrow> sc xs (k + 1) \<le> sc xs a) \<longrightarrow>
            (\<forall>j. 1 \<le> j \<and> j < N \<longrightarrow> sc ys (j + 1) \<le> sc ys j))"
  using assms
proof (induction k arbitrary: s xs)
  case 0
  have "s\<lparr>tn_items := xs, tn_count := 0\<rparr> = s" using 0(4,5) by (cases s) simp
  then have "sortDescending_loop s 0 = Some (Inr (s\<lparr>tn_items := xs, tn_count := 0\<rparr>))"
    using 0(5) by (subst sortDescending_loop.simps) simp
  then show ?case using 0 by (intro exI [of _ xs]) simp
next
  case (Suc k')
  let ?k = "Suc k'"
  note full = Suc.prems(1) and len = Suc.prems(2) and kN = Suc.prems(3) and st = Suc.prems(4,5)
  have k: "1 \<le> ?k" "?k < N + 1" using kN by simp_all
  from removeTop_spec [OF full len k st]
  obtain ys where ys: "removeTop s = Some (Inr (xs ! 1, s\<lparr>tn_items := ys, tn_count := ?k - 1\<rparr>))"
    "length ys = N + 1" "None \<notin> set ys"
    "mset ys = mset (xs[1 := xs ! ?k])" "\<forall>j. j = 0 \<or> ?k \<le> j \<longrightarrow> ys ! j = xs ! j"
    "clean xs \<and> heapArr xs ?k \<longrightarrow> heapArr ys (?k - 1)"
    by blast
  obtain t where t: "xs ! 1 = Some t" using full_nth [OF full, of 1] len k by auto
  let ?zs = "ys[?k := Some t]"
  let ?s2 = "s\<lparr>tn_items := ?zs, tn_count := k'\<rparr>"
  have swap: "s\<lparr>tn_count := k', tn_items := ?zs\<rparr> = ?s2" by (cases s) simp
  have step: "sortDescending_loop s ?k = sortDescending_loop ?s2 k'"
    using st ys(1,2) t k by (subst sortDescending_loop.simps) (simp add: arr_set_def swap)
  have zfull: "None \<notin> set ?zs" using ys(3) by (rule full_update)
  have zlen: "length ?zs = N + 1" using ys(2) by simp
  have zlow: "\<And>j. j \<le> k' \<Longrightarrow> sc ?zs j = sc ys j" by (simp add: sc_update_other)
  have zk: "sc ?zs ?k = sc xs 1" using k ys(2) t by (simp add: sc_def cscore_def)
  have zhigh: "\<And>j. ?k < j \<Longrightarrow> sc ?zs j = sc xs j" using ys(5) by (simp add: sc_def)
  have msz: "mset ?zs = mset xs"
  proof -
    have a: "add_mset (xs ! 1) (mset ys) = add_mset (xs ! ?k) (mset xs)"
      using mset_update_add [of 1 xs "xs ! ?k"] len k ys(4) by simp
    have "ys ! ?k = xs ! ?k" using ys(5) by simp
    then have "add_mset (xs ! ?k) (mset ?zs) = add_mset (Some t) (mset ys)"
      using mset_update_add [of ?k ys "Some t"] ys(2) k by simp
    with a t have "add_mset (xs ! ?k) (mset ?zs) = add_mset (xs ! ?k) (mset xs)" by simp
    then show ?thesis by simp
  qed
  let ?xs1 = "xs[1 := xs ! ?k]"
  have mid: "mset (take (?k - 1) (tl ys)) = mset (take (?k - 1) (tl ?xs1))"
  proof (rule mset_middle)
    show "length ys = length ?xs1" using ys(2) len by simp
    show "1 \<le> ?k" "?k \<le> length ?xs1" using len k by simp_all
    show "mset ys = mset ?xs1" by (rule ys(4))
    show "ys ! 0 = ?xs1 ! 0" using ys(5) by simp
    show "\<forall>j. ?k \<le> j \<longrightarrow> ys ! j = ?xs1 ! j"
    proof (intro allI impI)
      fix j assume "?k \<le> j"
      then show "ys ! j = ?xs1 ! j" using ys(5) len by (cases "j = 1") auto
    qed
  qed
  have from_xs: "\<exists>b'. 1 \<le> b' \<and> b' \<le> ?k \<and> ys ! a = xs ! b'" if a: "1 \<le> a \<and> a \<le> k'" for a
  proof -
    from a have a': "a - 1 < k'" "Suc (a - 1) = a" by auto
    then have "a - 1 < length (take (?k - 1) (tl ys))" using a ys(2) kN by simp
    then have "take (?k - 1) (tl ys) ! (a - 1) \<in> set (take (?k - 1) (tl ys))" by (rule nth_mem)
    moreover have "take (?k - 1) (tl ys) ! (a - 1) = ys ! a" using a a' ys(2) kN by (simp add: nth_tl)
    ultimately have "ys ! a \<in> set (take (?k - 1) (tl ?xs1))"
      using mid by (metis set_mset_mset)
    then obtain b where b: "b < k'" "ys ! a = tl ?xs1 ! b"
      by (auto simp: in_set_conv_nth)
    then have yb: "ys ! a = ?xs1 ! (b + 1)" using len kN by (simp add: nth_tl)
    show ?thesis
    proof (cases "b = 0")
      case True
      then have "ys ! a = xs ! ?k" using yb len kN by simp
      then show ?thesis by (intro exI [of _ ?k]) simp
    next
      case False
      then have "ys ! a = xs ! (b + 1)" using yb by simp
      then show ?thesis using b(1) by (intro exI [of _ "b + 1"]) simp
    qed
  qed
  let ?H = "\<lambda>xs k. clean xs \<and> heapArr xs k \<and>
            (\<forall>j. k < j \<and> j < N \<longrightarrow> sc xs (j + 1) \<le> sc xs j) \<and>
            (\<forall>a. 1 \<le> a \<and> a \<le> k \<and> k < N \<longrightarrow> sc xs (k + 1) \<le> sc xs a)"
  have keep: "?H ?zs k'" if H: "?H xs ?k"
  proof (intro conjI)
    from H have cl: "clean xs" and heap: "heapArr xs ?k"
      and sorted: "\<forall>j. ?k < j \<and> j < N \<longrightarrow> sc xs (j + 1) \<le> sc xs j"
      and bound: "\<forall>a. 1 \<le> a \<and> a \<le> ?k \<and> ?k < N \<longrightarrow> sc xs (?k + 1) \<le> sc xs a"
      by simp_all
    show "clean ?zs" using cl clean_mset [OF msz] by simp
    from ys(6) cl heap have hy: "heapArr ys (?k - 1)" by blast
    show "heapArr ?zs k'"
      unfolding heapArr_def
    proof (intro allI impI)
      fix c assume c: "2 \<le> c \<and> c \<le> k'"
      have "c div 2 \<le> c" by simp
      with c have "c div 2 \<le> k'" by linarith
      moreover have "sc ys (c div 2) \<le> sc ys c" using hy c by (simp add: heapArr_def)
      ultimately show "sc ?zs (c div 2) \<le> sc ?zs c" using c zlow by simp
    qed
    show "\<forall>j. k' < j \<and> j < N \<longrightarrow> sc ?zs (j + 1) \<le> sc ?zs j"
    proof (intro allI impI)
      fix j assume j: "k' < j \<and> j < N"
      show "sc ?zs (j + 1) \<le> sc ?zs j"
      proof (cases "j = ?k")
        case True
        then have "sc xs (?k + 1) \<le> sc xs 1" using bound j by simp
        then show ?thesis using True zk zhigh [of "?k + 1"] by simp
      next
        case False
        then have "?k < j" using j by simp
        then show ?thesis using sorted j zhigh [of j] zhigh [of "j + 1"] by simp
      qed
    qed
    show "\<forall>a. 1 \<le> a \<and> a \<le> k' \<and> k' < N \<longrightarrow> sc ?zs (k' + 1) \<le> sc ?zs a"
    proof (intro allI impI)
      fix a assume a: "1 \<le> a \<and> a \<le> k' \<and> k' < N"
      then obtain b' where b': "1 \<le> b'" "b' \<le> ?k" "ys ! a = xs ! b'" using from_xs [of a] by blast
      have "sc xs 1 \<le> sc xs b'" by (rule heapArr_root_min [OF heap b'(1,2)])
      then have "sc xs 1 \<le> sc ys a" using b'(3) by (simp add: sc_def)
      then show "sc ?zs (k' + 1) \<le> sc ?zs a" using zk zlow [of a] a by simp
    qed
  qed
  from Suc.IH [of ?zs ?s2, OF zfull zlen] kN
  obtain ws where ws: "sortDescending_loop ?s2 k' = Some (Inr (?s2\<lparr>tn_items := ws, tn_count := 0\<rparr>))"
    "length ws = N + 1" "None \<notin> set ws" "mset ws = mset ?zs" "ws ! 0 = ?zs ! 0"
    "?H ?zs k' \<longrightarrow> (\<forall>j. 1 \<le> j \<and> j < N \<longrightarrow> sc ws (j + 1) \<le> sc ws j)"
    by auto
  have "?H xs ?k \<longrightarrow> (\<forall>j. 1 \<le> j \<and> j < N \<longrightarrow> sc ws (j + 1) \<le> sc ws j)"
    using keep ws(6) by blast
  moreover have "?s2\<lparr>tn_items := ws, tn_count := 0\<rparr> = s\<lparr>tn_items := ws, tn_count := 0\<rparr>"
    by (cases s) simp
  ultimately show ?case using step ws(1-5) msz ys(5) by (intro exI [of _ ws]) simp
qed

lemma sortDescending_spec:
  fixes s :: "'a TopNCollection"
  assumes inv: "structInv s"
  shows "\<exists>s'. sortDescending s = Some (Inr s') \<and> tn_count s' = tn_count s \<and>
           tn_maxCount s' = tn_maxCount s \<and> occupancy s' = occupancy s \<and>
           (heapInv s \<longrightarrow> descending s')"
proof -
  let ?xs = "tn_items s" and ?k = "tn_count s"
  from inv have len: "length ?xs = ?k + 1" and full: "None \<notin> set ?xs"
    by (simp_all add: structInv_def)
  from sortDescending_loop_spec [OF full len _ refl refl]
  obtain ys where ys: "sortDescending_loop s ?k = Some (Inr (s\<lparr>tn_items := ys, tn_count := 0\<rparr>))"
    "length ys = ?k + 1" "None \<notin> set ys" "mset ys = mset ?xs" "ys ! 0 = ?xs ! 0"
    "clean ?xs \<and> heapArr ?xs ?k \<longrightarrow> (\<forall>j. 1 \<le> j \<and> j < ?k \<longrightarrow> sc ys (j + 1) \<le> sc ys j)"
    by auto
  let ?s' = "s\<lparr>tn_items := ys\<rparr>"
  have "s\<lparr>tn_items := ys, tn_count := 0, tn_count := ?k\<rparr> = ?s'" by (cases s) simp
  then have run: "sortDescending s = Some (Inr ?s')"
    using ys(1) by (simp add: sortDescending_def)
  have occ: "occupancy ?s' = occupancy s"
  proof -
    have "add_mset (tn_items ?s' ! 0) (occupancy ?s') = mset (tn_items ?s')"
      by (rule occupancy_add) (simp add: ys(2))
    moreover have "add_mset (?xs ! 0) (occupancy s) = mset ?xs" by (rule occupancy_add [OF len])
    ultimately have "add_mset (?xs ! 0) (occupancy ?s') = add_mset (?xs ! 0) (occupancy s)"
      using ys(4,5) by simp
    then show ?thesis by simp
  qed
  have "descending ?s'" if h: "heapInv s"
    unfolding descending_def
  proof (intro ballI)
    from h have cl: "clean ?xs" and heap: "heapArr ?xs ?k" by (simp_all add: heapInv_def)
    have cly: "clean ys" using cl clean_mset [OF ys(4)] by simp
    fix i assume "i \<in> {0 ..< tn_count ?s' - 1}"
    then have i: "i + 1 < ?k" by auto
    then obtain a b where ab: "ys ! (i + 1) = Some a" "ys ! (i + 2) = Some b"
      using full_nth [OF ys(3), of "i + 1"] full_nth [OF ys(3), of "i + 2"] ys(2) by auto
    have "sc ys (i + 1 + 1) \<le> sc ys (i + 1)" using ys(6) cl heap i by simp
    moreover have "sc ys (i + 1 + 1) \<noteq> NaN" "sc ys (i + 1) \<noteq> NaN"
      using cly i ys(2) by (simp_all add: clean_sc)
    ultimately have "js_le (sc ys (i + 1 + 1)) (sc ys (i + 1))" by (simp add: js_le_iff)
    then have "js_le (score b) (score a)" using ab by (simp add: sc_def cscore_def)
    then show "cell_le (get ?s' (i + 1)) (get ?s' i)"
      using ab i ys(2) by (simp add: cell_le_def get_def arr_get_def)
  qed
  with run occ show ?thesis by (intro exI [of _ ?s']) simp
qed

text \<open>
  Claim C1, as stated, fails: \<open>add\<close> rejects a candidate only when \<open>score < top.score\<close> is
  true, which it never is on NaN. In a collection of capacity 1, adding \<open>A\<close> with score 5,
  then \<open>B\<close> with score NaN, then \<open>C\<close> with score 1 ends with \<open>C\<close> retained, although \<open>A\<close> has
  the higher score.
\<close>

theorem adds_NaN_evicts_higher_score:
  "adds [(''A'', Fin 5), (''B'', NaN), (''C'', Fin 1)] (fresh 1) =
     Some (Inr \<lparr>tn_items = [Some sentinel, Some \<lparr>val = Some ''C'', score = Fin 1\<rparr>],
                tn_count = 1, tn_maxCount = 1\<rparr>)
   \<and> js_lt (Fin 1) (Fin 5)"
  by (simp add: heap_eval)

text \<open>
  Claim C1, amended. From a collection made by the constructor with capacity \<open>m\<close>, any
  sequence \<open>cs\<close> of \<open>add\<close> calls runs without an exception; afterwards the count is the
  smaller of the number of candidates and \<open>m\<close> (so it is \<open>m\<close> once more than \<open>m\<close> candidates
  were added, and never above \<open>m\<close>, after every prefix of the sequence as well), and the
  candidates split into the retained cells and dropped ones \<open>D\<close>. When no score is NaN,
  the retained cells are highest-scoring candidates: no dropped candidate scores above a
  retained one. When the scores are strictly increasing, the retained cells are exactly
  the last \<open>m\<close> candidates.
\<close>

theorem adds_bounded_retention:
  assumes "TopNCollection_new m = Inr c"
  shows "\<exists>s D. adds cs c = Some (Inr s) \<and>
           tn_count s = min (length cs) m \<and> tn_maxCount s = m \<and> tn_count s \<le> tn_maxCount s \<and>
           size (occupancy s) = tn_count s \<and>
           occupancy s + D = mset (map cellOf cs) \<and>
           (NaN \<notin> snd ` set cs \<longrightarrow>
              (\<forall>r \<in># occupancy s. \<forall>d \<in># D. js_le (cscore d) (cscore r))) \<and>
           (sorted_wrt js_lt (map snd cs) \<longrightarrow>
              occupancy s = mset (map cellOf (drop (length cs - m) cs)))"
proof -
  from assms have m: "0 < m" and c: "c = fresh m" by (simp_all add: new_fresh)
  from adds_retention [OF m, of cs] obtain s D where s: "adds cs (fresh m) = Some (Inr s)"
    "occupancy s + D = mset (map cellOf cs)"
    "NaN \<notin> snd ` set cs \<longrightarrow> (\<forall>r \<in># occupancy s. \<forall>d \<in># D. cscore d \<le> cscore r)" by blast
  from adds_fresh [OF m, of cs] s(1) have inv: "structInv s" "tn_maxCount s = m"
    "tn_count s = min (length cs) m" by auto
  have inc: "sorted_wrt js_lt (map snd cs) \<longrightarrow>
      occupancy s = mset (map cellOf (drop (length cs - m) cs))"
    using adds_increasing [OF m, of cs] s(1) by auto
  have le: "\<forall>r \<in># occupancy s. \<forall>d \<in># D. js_le (cscore d) (cscore r)"
    if clean: "NaN \<notin> snd ` set cs"
  proof (intro ballI)
    fix r d assume r: "r \<in># occupancy s" and d: "d \<in># D"
    have cand: "cscore e \<noteq> NaN" if "e \<in># occupancy s + D" for e
    proof -
      from that have "e \<in> cellOf ` set cs" unfolding s(2) by simp
      then obtain p where p: "p \<in> set cs" "e = cellOf p" by auto
      from p(1) clean have "snd p \<noteq> NaN" by (metis imageI)
      then show ?thesis using p(2) by (simp add: cscore_def cellOf_def)
    qed
    have "cscore d \<le> cscore r" using s(3) clean r d by simp
    moreover have "cscore d \<noteq> NaN" "cscore r \<noteq> NaN" using cand r d by simp_all
    ultimately show "js_le (cscore d) (cscore r)" by (simp add: js_le_iff)
  qed
  from s(1,2) inv occupancy_size [OF inv(1)] c inc le show ?thesis
    by (intro exI [of _ s] exI [of _ D]) simp
qed

lemmas sort_eval = sortDescending_def sortDescending_loop.simps

theorem adds_bounded_retention_witness:
  "TopNCollection_new 3 = Inr (fresh 3 :: string TopNCollection)
   \<and> NaN \<notin> snd ` set [(''A'', Fin 1), (''B'', Fin 2), (''C'', Fin 3), (''D'', Fin 4), (''E'', Fin 5)]
   \<and> sorted_wrt js_lt (map snd [(''A'', Fin 1), (''B'', Fin 2), (''C'', Fin 3), (''D'', Fin 4), (''E'', Fin 5)])
   \<and> (\<exists>s. adds [(''A'', Fin 1), (''B'', Fin 2), (''C'', Fin 3), (''D'', Fin 4), (''E'', Fin 5)] (fresh 3)
           = Some (Inr s)
         \<and> tn_count s = 3 \<and> tn_maxCount s = 3
         \<and> occupancy s = {#cellOf (''C'', Fin 3), cellOf (''D'', Fin 4), cellOf (''E'', Fin 5)#})"
proof -
  let ?cs = "[(''A'', Fin 1), (''B'', Fin 2), (''C'', Fin 3), (''D'', Fin 4), (''E'', Fin 5)]"
  have n: "TopNCollection_new 3 = Inr (fresh 3 :: string TopNCollection)"
    by (simp add: TopNCollection_new_def)
  have c: "NaN \<notin> snd ` set ?cs" by simp
  have i: "sorted_wrt js_lt (map snd ?cs)" by simp
  from adds_bounded_retention [OF n, of ?cs] obtain s where s:
    "adds ?cs (fresh 3) = Some (Inr s)" "tn_count s = min (length ?cs) 3" "tn_maxCount s = 3"
    "sorted_wrt js_lt (map snd ?cs) \<longrightarrow> occupancy s = mset (map cellOf (drop (length ?cs - 3) ?cs))"
    by blast
  from s(4) i have "occupancy s = {#cellOf (''C'', Fin 3), cellOf (''D'', Fin 4), cellOf (''E'', Fin 5)#}"
    by simp
  with s(1,2,3) have "\<exists>s. adds ?cs (fresh 3) = Some (Inr s)
         \<and> tn_count s = 3 \<and> tn_maxCount s = 3
         \<and> occupancy s = {#cellOf (''C'', Fin 3), cellOf (''D'', Fin 4), cellOf (''E'', Fin 5)#}"
    by (intro exI [of _ s]) (simp del: adds.simps)
  with n c i show ?thesis by blast
qed

text \<open>
  Claim C3, as stated, fails: after adding \<open>A\<close> with score NaN and \<open>B\<close> with score 1 to a
  collection of capacity 2, \<open>sortDescending\<close> leaves \<open>B\<close> at index 0 and \<open>A\<close> at index 1, and
  \<open>get(0).score >= get(1).score\<close>, that is \<open>1 >= NaN\<close>, is false.
\<close>

theorem sortDescending_NaN_not_descending:
  "adds [(''A'', NaN), (''B'', Fin 1)] (fresh 2) =
     Some (Inr \<lparr>tn_items = [Some sentinel, Some \<lparr>val = Some ''A'', score = NaN\<rparr>,
                  Some \<lparr>val = Some ''B'', score = Fin 1\<rparr>],
                tn_count = 2, tn_maxCount = 2\<rparr>)
   \<and> sortDescending \<lparr>tn_items = [Some sentinel, Some \<lparr>val = Some ''A'', score = NaN\<rparr>,
                  Some \<lparr>val = Some ''B'', score = Fin 1\<rparr>],
                tn_count = 2, tn_maxCount = 2\<rparr> =
     Some (Inr \<lparr>tn_items = [Some sentinel, Some \<lparr>val = Some ''B'', score = Fin 1\<rparr>,
                  Some \<lparr>val = Some ''A'', score = NaN\<rparr>],
                tn_count = 2, tn_maxCount = 2\<rparr>)
   \<and> get \<lparr>tn_items = [Some sentinel, Some \<lparr>val = Some ''B'', score = Fin 1\<rparr>,
                  Some \<lparr>val = Some ''A'', score = NaN\<rparr>],
           tn_count = 2, tn_maxCount = 2 :: nat\<rparr> 0 = Some \<lparr>val = Some ''B'', score = Fin 1\<rparr>
   \<and> get \<lparr>tn_items = [Some sentinel, Some \<lparr>val = Some ''B'', score = Fin 1\<rparr>,
                  Some \<lparr>val = Some ''A'', score = NaN\<rparr>],
           tn_count = 2, tn_maxCount = 2 :: nat\<rparr> 1 = Some \<lparr>val = Some ''A'', score = NaN\<rparr>
   \<and> \<not> js_ge (Fin 1) NaN
   \<and> \<not> descending \<lparr>tn_items = [Some sentinel, Some \<lparr>val = Some ''B'', score = Fin 1\<rparr>,
                  Some \<lparr>val = Some ''A'', score = NaN\<rparr>],
                tn_count = 2, tn_maxCount = 2 :: nat\<rparr>"
  by (simp add: sort_eval heap_eval descending_def cell_le_def get_def)

text \<open>
  Claim C3, amended. From a collection made by the constructor, after any sequence of
  \<open>add\<close> calls, \<open>sortDescending\<close> returns normally, the multiset of occupied cells is the
  one before the call, and the count is the one before the call. When no score added is
  NaN, the result has \<open>get(i).score >= get(i + 1).score\<close> for every valid index \<open>i\<close>.
\<close>

theorem sortDescending_after_adds:
  assumes "TopNCollection_new m = Inr c"
  shows "\<exists>s s'. adds cs c = Some (Inr s) \<and> sortDescending s = Some (Inr s') \<and>
           occupancy s' = occupancy s \<and> tn_count s' = tn_count s \<and>
           (NaN \<notin> snd ` set cs \<longrightarrow> descending s')"
proof -
  from assms have m: "0 < m" and c: "c = fresh m" by (simp_all add: new_fresh)
  from adds_fresh [OF m, of cs] obtain s where s: "adds cs (fresh m) = Some (Inr s)" "structInv s"
    "NaN \<notin> snd ` set cs \<longrightarrow> heapInv s" by blast
  from sortDescending_spec [OF s(2)] s(1,3) c show ?thesis by blast
qed

theorem sortDescending_after_adds_witness:
  "TopNCollection_new 3 = Inr (fresh 3 :: string TopNCollection)
   \<and> NaN \<notin> snd ` set [(''A'', Fin 1), (''B'', Fin 5), (''C'', Fin 3), (''D'', Fin 9), (''E'', Fin 2)]
   \<and> adds [(''A'', Fin 1), (''B'', Fin 5), (''C'', Fin 3), (''D'', Fin 9), (''E'', Fin 2)] (fresh 3) =
       Some (Inr \<lparr>tn_items = [Some sentinel, Some \<lparr>val = Some ''C'', score = Fin 3\<rparr>,
                    Some \<lparr>val = Some ''B'', score = Fin 5\<rparr>, Some \<lparr>val = Some ''D'', score = Fin 9\<rparr>],
                  tn_count = 3, tn_maxCount = 3\<rparr>)
   \<and> sortDescending \<lparr>tn_items = [Some sentinel, Some \<lparr>val = Some ''C'', score = Fin 3\<rparr>,
                    Some \<lparr>val = Some ''B'', score = Fin 5\<rparr>, Some \<lparr>val = Some ''D'', score = Fin 9\<rparr>],
                  tn_count = 3, tn_maxCount = 3\<rparr> =
       Some (Inr \<lparr>tn_items = [Some sentinel, Some \<lparr>val = Some ''D'', score = Fin 9\<rparr>,
                    Some \<lparr>val = Some ''B'', score = Fin 5\<rparr>, Some \<lparr>val = Some ''C'', score = Fin 3\<rparr>],
                  tn_count = 3, tn_maxCount = 3\<rparr>)
   \<and> descending \<lparr>tn_items = [Some sentinel, Some \<lparr>val = Some ''D'', score = Fin 9\<rparr>,
                    Some \<lparr>val = Some ''B'', score = Fin 5\<rparr>, Some \<lparr>val = Some ''C'', score = Fin 3\<rparr>],
                  tn_count = 3, tn_maxCount = 3\<rparr>"
proof -
  let ?cs = "[(''A'', Fin 1), (''B'', Fin 5), (''C'', Fin 3), (''D'', Fin 9), (''E'', Fin 2)]"
  let ?s = "\<lparr>tn_items = [Some sentinel, Some \<lparr>val = Some ''C'', score = Fin 3\<rparr>,
                    Some \<lparr>val = Some ''B'', score = Fin 5\<rparr>, Some \<lparr>val = Some ''D'', score = Fin 9\<rparr>],
                  tn_count = 3, tn_maxCount = 3\<rparr> :: string TopNCollection"
  let ?s' = "\<lparr>tn_items = [Some sentinel, Some \<lparr>val = Some ''D'', score = Fin 9\<rparr>,
                    Some \<lparr>val = Some ''B'', score = Fin 5\<rparr>, Some \<lparr>val = Some ''C'', score = Fin 3\<rparr>],
                  tn_count = 3, tn_maxCount = 3\<rparr> :: string TopNCollection"
  have n: "TopNCollection_new 3 = Inr (fresh 3 :: string TopNCollection)"
    by (simp add: TopNCollection_new_def)
  have c: "NaN \<notin> snd ` set ?cs" by simp
  have e: "adds ?cs (fresh 3) = Some (Inr ?s)"
    by (simp add: heap_eval)
  have d: "sortDescending ?s = Some (Inr ?s')"
    by (simp add: sort_eval heap_eval)
  from sortDescending_after_adds [OF n, of ?cs] c
  have "descending ?s'" unfolding e by (simp add: d)
  with n c e d show ?thesis by blast
qed

end
